theory Spec2Isabelle
  imports Main "HOL-Library.Word"
begin

section \<open>The ANT debug channel (debug.c): data model\<close>

text \<open>
  The module keeps its state in file-level statics. Both arrays have
  \<open>DEBUG_QUEUE_SIZE = 256\<close> elements and every index expression of the source is a
  \<open>uint8_t\<close> (or a \<open>uint32_t\<close> that only ever holds a byte value), so an array is a
  total function on bytes: no access is out of range. Byte buffers of eight elements (the
  transmit buffer and a received payload) are functions from the offset; the source touches
  offsets 0..7 only.
\<close>

type_synonym u8 = "8 word"
type_synonym u16 = "16 word"
type_synonym buffer = "nat \<Rightarrow> u8"

record debug_value_t =
  index :: u8
  "value" :: u16
  "output" :: bool

record ad_state =
  m_debug_queue :: "u8 \<Rightarrow> debug_value_t"
  m_hash_lookup :: "u8 \<Rightarrow> u8"
  m_queue_size :: u8
  m_current_index_debug_channel :: u8
  m_head :: u8
  m_selective_debug :: bool
  m_tx_buffer :: buffer
  m_fast_debug_byte :: u8

definition ANT_DEBUG_FIELD_INVALID :: u8 where
  "ANT_DEBUG_FIELD_INVALID = 0xFF"

definition ANT_DEBUG_PAGE_MESSAGE :: u8 where
  "ANT_DEBUG_PAGE_MESSAGE = 0xF9"

definition ANT_FAST_DEBUG_BYTE_INDEX :: nat where
  "ANT_FAST_DEBUG_BYTE_INDEX = 1"

definition ANT_DEBUG_FILTER_COMMAND :: u8 where
  "ANT_DEBUG_FILTER_COMMAND = 3"

definition ANT_DEBUG_SUB_COMMAND_FILTER_ADD :: u8 where
  "ANT_DEBUG_SUB_COMMAND_FILTER_ADD = 1"

definition ANT_DEBUG_SUB_COMMAND_FILTER_CLEAR :: u8 where
  "ANT_DEBUG_SUB_COMMAND_FILTER_CLEAR = 2"

definition ANT_RESERVED_BYTE :: u8 where
  "ANT_RESERVED_BYTE = 0xFF"

definition ANT_PAGE_DEBUG_KEY0_INDEX :: u8 where
  "ANT_PAGE_DEBUG_KEY0_INDEX = 2"

definition ANT_PAGE_DEBUG_VALUE_SIZE :: u8 where
  "ANT_PAGE_DEBUG_VALUE_SIZE = 3"

definition DEBUG_QUEUE_SIZE :: nat where
  "DEBUG_QUEUE_SIZE = 256"

text \<open>
  The statics before the first call of \<open>ad_init\<close>: C zero-initialises static storage.
\<close>

definition power_on :: ad_state where
  "power_on =
     \<lparr> m_debug_queue = (\<lambda>_. \<lparr> index = 0, value = 0, output = False \<rparr>),
       m_hash_lookup = (\<lambda>_. 0),
       m_queue_size = 0,
       m_current_index_debug_channel = 0,
       m_head = 0,
       m_selective_debug = False,
       m_tx_buffer = (\<lambda>_. 0),
       m_fast_debug_byte = 0 \<rparr>"

section \<open>Field registry\<close>

text \<open>
  The loop of \<open>ad_init\<close>, \<open>for (uint32_t i = 0; i < DEBUG_QUEUE_SIZE; i++)\<close>: it writes
  the key and the value of each slot and the lookup entry, and leaves the \<open>output\<close> member
  of the slot alone.
\<close>

function ad_init_loop :: "32 word \<Rightarrow> ad_state \<Rightarrow> ad_state" where
  "ad_init_loop i s =
     (if i < 256
      then ad_init_loop (i + 1)
             (s\<lparr> m_debug_queue := (m_debug_queue s)
                     (ucast i := (m_debug_queue s (ucast i))\<lparr> index := 0, value := 0 \<rparr>),
                 m_hash_lookup := (m_hash_lookup s)(ucast i := ANT_DEBUG_FIELD_INVALID) \<rparr>)
      else s)"
  by pat_completeness auto
termination
proof (relation "measure (\<lambda>(i, s). 256 - unat i)")
  show "wf (measure (\<lambda>(i :: 32 word, s :: ad_state). 256 - unat i))"
    by simp
next
  fix i :: "32 word" and s :: ad_state
  assume lt: "i < 256"
  then have "unat i < 256"
    by (simp add: word_less_nat_alt)
  moreover from this have "unat (i + 1) = unat i + 1"
    by (simp add: unat_word_ariths)
  ultimately show "((i + 1, s\<lparr> m_debug_queue := (m_debug_queue s)
                     (ucast i := (m_debug_queue s (ucast i))\<lparr> index := 0, value := 0 \<rparr>),
                 m_hash_lookup := (m_hash_lookup s)(ucast i := ANT_DEBUG_FIELD_INVALID) \<rparr>),
               (i, s)) \<in> measure (\<lambda>(i, s). 256 - unat i)"
    by simp
qed

declare ad_init_loop.simps [simp del]

text \<open>
  \<open>ad_init\<close>, the part that touches the module's statics. The channel set-up that follows
  in the source (\<open>ant_channel_init\<close>, \<open>sd_ant_channel_open\<close>) belongs to the radio stack.
\<close>

definition ad_init :: "ad_state \<Rightarrow> ad_state" where
  "ad_init s =
     ad_init_loop 0
       (s\<lparr> m_queue_size := 0,
           m_current_index_debug_channel := 0,
           m_head := 0,
           m_selective_debug := False,
           m_fast_debug_byte := 0xFF \<rparr>)"

text \<open>
  \<open>ad_set_debug_field\<close>. The local \<open>i\<close> is a \<open>uint32_t\<close> in the source that holds
  either \<open>m_head\<close> (read before the increment) or a lookup entry, both bytes.
\<close>

definition ad_set_debug_field :: "u8 \<Rightarrow> u16 \<Rightarrow> ad_state \<Rightarrow> ad_state" where
  "ad_set_debug_field idx field_value s =
     (let i = (if m_hash_lookup s idx \<noteq> ANT_DEBUG_FIELD_INVALID
               then m_hash_lookup s idx else m_head s);
          s1 = (if m_hash_lookup s idx \<noteq> ANT_DEBUG_FIELD_INVALID
                then s
                else s\<lparr> m_hash_lookup := (m_hash_lookup s)(idx := m_head s),
                        m_debug_queue := (m_debug_queue s)
                          (m_head s := (m_debug_queue s (m_head s))\<lparr> index := idx \<rparr>),
                        m_head := m_head s + 1,
                        m_queue_size := m_queue_size s + 1 \<rparr>)
      in s1\<lparr> m_debug_queue := (m_debug_queue s1)
                (i := (m_debug_queue s1 i)\<lparr> value := field_value \<rparr>) \<rparr>)"

text \<open>
  \<open>ad_get_debug_field\<close>: \<open>Some v\<close> stands for \<open>return true\<close> with \<open>*p_field_value = v\<close>,
  \<open>None\<close> for \<open>return false\<close>.
\<close>

definition ad_get_debug_field :: "u8 \<Rightarrow> ad_state \<Rightarrow> u16 option" where
  "ad_get_debug_field idx s =
     (let v = m_debug_queue s (m_hash_lookup s idx)
      in if index v \<noteq> ANT_DEBUG_FIELD_INVALID then Some (value v) else None)"

definition ad_increment_debug_field :: "u8 \<Rightarrow> ad_state \<Rightarrow> ad_state" where
  "ad_increment_debug_field idx s =
     (case ad_get_debug_field idx s of
        Some v \<Rightarrow> ad_set_debug_field idx (v + 1) s
      | None \<Rightarrow> s)"

definition ad_set_fast_debug_byte :: "u8 \<Rightarrow> ad_state \<Rightarrow> ad_state" where
  "ad_set_fast_debug_byte fdb_value s = s\<lparr> m_fast_debug_byte := fdb_value \<rparr>"

section \<open>Page builder\<close>

definition ad_output_debug_mesg :: "ad_state \<Rightarrow> u8 \<Rightarrow> bool" where
  "ad_output_debug_mesg s current_index =
     (if m_selective_debug s then output (m_debug_queue s current_index) else True)"

text \<open>The three byte stores of the loop body, at offset \<open>index\<close> of the message.\<close>

definition write_field :: "ad_state \<Rightarrow> u8 \<Rightarrow> u8 \<Rightarrow> buffer \<Rightarrow> buffer" where
  "write_field s current_index idx p_data =
     p_data
       (unat idx := index (m_debug_queue s current_index),
        unat idx + 1 := ucast (value (m_debug_queue s current_index)),
        unat idx + 2 := ucast (drop_bit 8 (value (m_debug_queue s current_index))))"

text \<open>The cursor update that ends the loop body: add one (a byte), then wrap at the size.\<close>

definition advance :: "ad_state \<Rightarrow> u8 \<Rightarrow> u8" where
  "advance s current_index =
     (if current_index + 1 \<ge> m_queue_size s then 0 else current_index + 1)"

text \<open>
  The \<open>while (count < 2)\<close> loop of \<open>ad_get_debug_page\<close>. The source has no bound on the
  number of iterations, so the loop is a partial function: \<open>None\<close> means that it never
  returns.
\<close>

partial_function (option) get_page_loop ::
  "ad_state \<Rightarrow> u8 \<Rightarrow> buffer \<Rightarrow> u8 \<Rightarrow> (buffer \<times> u8) option" where
  "get_page_loop s count p_data current_index =
     (if count < 2
      then (if ad_output_debug_mesg s current_index
            then get_page_loop s (count + 1)
                   (write_field s current_index
                      (ANT_PAGE_DEBUG_KEY0_INDEX + count * ANT_PAGE_DEBUG_VALUE_SIZE) p_data)
                   (advance s current_index)
            else get_page_loop s count p_data (advance s current_index))
      else Some (p_data, current_index))"

text \<open>\<open>memset(&p_data[ANT_PAGE_DEBUG_KEY0_INDEX], ANT_RESERVED_BYTE, 6)\<close>.\<close>

definition fill_reserved :: "buffer \<Rightarrow> buffer" where
  "fill_reserved p_data =
     (\<lambda>n. if unat ANT_PAGE_DEBUG_KEY0_INDEX \<le> n \<and> n < unat ANT_PAGE_DEBUG_KEY0_INDEX + 6
          then ANT_RESERVED_BYTE else p_data n)"

definition ad_get_debug_page :: "ad_state \<Rightarrow> buffer \<Rightarrow> u8 \<Rightarrow> (buffer \<times> u8) option" where
  "ad_get_debug_page s p_data current_index =
     (let d = p_data(0 := ANT_DEBUG_PAGE_MESSAGE,
                     ANT_FAST_DEBUG_BYTE_INDEX := m_fast_debug_byte s)
      in if m_queue_size s > 0
         then get_page_loop s 0 d current_index
         else Some (fill_reserved d, current_index))"

text \<open>
  \<open>ad_update_tx\<close>: the page is built in \<open>m_tx_buffer\<close> with the cursor
  \<open>m_current_index_debug_channel\<close>; the broadcast itself is the radio stack's.
\<close>

definition ad_update_tx :: "ad_state \<Rightarrow> ad_state option" where
  "ad_update_tx s =
     (case ad_get_debug_page s (m_tx_buffer s) (m_current_index_debug_channel s) of
        None \<Rightarrow> None
      | Some (d, c) \<Rightarrow> Some (s\<lparr> m_tx_buffer := d, m_current_index_debug_channel := c \<rparr>))"

section \<open>Command decoder\<close>

text \<open>
  The decoder reads \<open>ANT_MESSAGE_aucPayload\<close>, the eight payload bytes of the received
  message (the \<open>ANT_MESSAGE\<close> type itself is declared in the radio stack's headers): it is
  the parameter \<open>payload\<close> here.

  The body of the filter-add loop, for the argument byte \<open>arg\<close>, which the source reads
  as \<open>ANT_MESSAGE_aucPayload[index]\<close>.
\<close>

definition filter_add_body :: "u8 \<Rightarrow> ad_state \<Rightarrow> ad_state" where
  "filter_add_body arg s =
     (if arg \<noteq> ANT_DEBUG_FIELD_INVALID
      then (let key = m_hash_lookup s arg;
                s1 = (if key = ANT_DEBUG_FIELD_INVALID
                      then ad_set_debug_field arg 0xFFFF s else s);
                key1 = (if key = ANT_DEBUG_FIELD_INVALID then m_hash_lookup s1 arg else key)
            in s1\<lparr> m_debug_queue := (m_debug_queue s1)
                      (key1 := (m_debug_queue s1 key1)\<lparr> output := True \<rparr>) \<rparr>)
      else s)"

text \<open>\<open>for (uint8_t index = 3; index < 8; index++)\<close>, entered with \<open>idx = 3\<close>.\<close>

function filter_add_loop :: "buffer \<Rightarrow> u8 \<Rightarrow> ad_state \<Rightarrow> ad_state" where
  "filter_add_loop payload idx s =
     (if idx < 8
      then filter_add_loop payload (idx + 1) (filter_add_body (payload (unat idx)) s)
      else s)"
  by pat_completeness auto
termination
proof (relation "measure (\<lambda>(payload, idx, s). 8 - unat idx)")
  show "wf (measure (\<lambda>(payload :: buffer, idx :: u8, s :: ad_state). 8 - unat idx))"
    by simp
next
  fix payload :: buffer and idx :: u8 and s :: ad_state
  assume "idx < 8"
  then have "unat idx < 8"
    by (simp add: word_less_nat_alt)
  moreover from this have "unat (idx + 1) = unat idx + 1"
    by (simp add: unat_word_ariths)
  ultimately show "((payload, idx + 1, filter_add_body (payload (unat idx)) s), (payload, idx, s))
                     \<in> measure (\<lambda>(payload, idx, s). 8 - unat idx)"
    by simp
qed

declare filter_add_loop.simps [simp del]

text \<open>\<open>for (uint8_t index = 0; index < m_queue_size; index++)\<close>, entered with \<open>idx = 0\<close>.\<close>

function filter_clear_loop :: "u8 \<Rightarrow> ad_state \<Rightarrow> ad_state" where
  "filter_clear_loop idx s =
     (if idx < m_queue_size s
      then filter_clear_loop (idx + 1)
             (s\<lparr> m_debug_queue := (m_debug_queue s)
                     (idx := (m_debug_queue s idx)\<lparr> output := False \<rparr>) \<rparr>)
      else s)"
  by pat_completeness auto
termination
proof (relation "measure (\<lambda>(idx, s). unat (m_queue_size s) - unat idx)")
  show "wf (measure (\<lambda>(idx :: u8, s :: ad_state). unat (m_queue_size s) - unat idx))"
    by simp
next
  fix idx :: u8 and s :: ad_state
  assume "idx < m_queue_size s"
  then have lt: "unat idx < unat (m_queue_size s)"
    by (simp add: word_less_nat_alt)
  moreover have "unat (m_queue_size s) < 256"
    by (rule order_less_le_trans [OF unsigned_less]) simp
  ultimately have "unat (idx + 1) = unat idx + 1"
    by (simp add: unat_word_ariths)
  with lt show "((idx + 1, s\<lparr> m_debug_queue := (m_debug_queue s)
                     (idx := (m_debug_queue s idx)\<lparr> output := False \<rparr>) \<rparr>), (idx, s))
                  \<in> measure (\<lambda>(idx, s). unat (m_queue_size s) - unat idx)"
    by simp
qed

declare filter_clear_loop.simps [simp del]

definition ad_decode_debug_command :: "buffer \<Rightarrow> ad_state \<Rightarrow> ad_state" where
  "ad_decode_debug_command payload s =
     (if payload 1 = ANT_DEBUG_FILTER_COMMAND
      then (if payload 2 = ANT_DEBUG_SUB_COMMAND_FILTER_ADD
            then filter_add_loop payload 3 (s\<lparr> m_selective_debug := True \<rparr>)
            else if payload 2 = ANT_DEBUG_SUB_COMMAND_FILTER_CLEAR
            then filter_clear_loop 0 (s\<lparr> m_selective_debug := False \<rparr>)
            else s)
      else s)"

text \<open>A payload given by its bytes.\<close>

definition payload_of :: "u8 list \<Rightarrow> buffer" where
  "payload_of bs = (\<lambda>n. if n < length bs then bs ! n else 0)"

section \<open>Runs of the module\<close>

text \<open>
  The operations a caller applies to the registry: the public \<open>ad_set_debug_field\<close> and
  \<open>ad_increment_debug_field\<close>, and a received filter message handed to the decoder.
\<close>

datatype op = Set u8 u16 | Increment u8 | Decode buffer

fun exec_op :: "op \<Rightarrow> ad_state \<Rightarrow> ad_state" where
  "exec_op (Set k v) s = ad_set_debug_field k v s"
| "exec_op (Increment k) s = ad_increment_debug_field k s"
| "exec_op (Decode payload) s = ad_decode_debug_command payload s"

fun run_ops :: "op list \<Rightarrow> ad_state \<Rightarrow> ad_state" where
  "run_ops [] s = s"
| "run_ops (x # xs) s = run_ops xs (exec_op x s)"

text \<open>
  The number of slots a run allocates. The only allocation is the \<open>else\<close> branch of
  \<open>ad_set_debug_field\<close>, which moves \<open>m_head\<close> by one; one operation allocates at most five
  slots (a filter-add message with five unknown keys), so the distance \<open>m_head\<close> has moved
  over one operation, a byte, is the number of slots the operation has allocated.
\<close>

fun run_allocs :: "op list \<Rightarrow> ad_state \<Rightarrow> nat" where
  "run_allocs [] s = 0"
| "run_allocs (x # xs) s =
     unat (m_head (exec_op x s) - m_head s) + run_allocs xs (exec_op x s)"

text \<open>
  Transmit opportunities: each element of the list is a batch of registry operations
  followed by one \<open>ad_update_tx\<close>. The result is \<open>None\<close> when a page build does not return.
\<close>

fun run_tx :: "op list list \<Rightarrow> ad_state \<Rightarrow> ad_state option" where
  "run_tx [] s = Some s"
| "run_tx (ops # rest) s =
     (case ad_update_tx (run_ops ops s) of
        None \<Rightarrow> None
      | Some s' \<Rightarrow> run_tx rest s')"

text \<open>An operation that writes a field of the key domain 0..254, and no filter message.\<close>

fun field_update :: "op \<Rightarrow> bool" where
  "field_update (Set k v) = (k \<noteq> ANT_DEBUG_FIELD_INVALID)"
| "field_update (Increment k) = (k \<noteq> ANT_DEBUG_FIELD_INVALID)"
| "field_update (Decode payload) = False"

section \<open>Invariants of the registry\<close>

text \<open>
  The two directions of the lookup invariant: the key stored in an occupied slot looks up
  to that slot, and a lookup entry other than the sentinel leads to a slot holding the key.
\<close>

definition lookup_invariant :: "ad_state \<Rightarrow> bool" where
  "lookup_invariant s \<longleftrightarrow>
     (\<forall>i. i < m_queue_size s \<longrightarrow> m_hash_lookup s (index (m_debug_queue s i)) = i) \<and>
     (\<forall>k. m_hash_lookup s k \<noteq> ANT_DEBUG_FIELD_INVALID \<longrightarrow>
          index (m_debug_queue s (m_hash_lookup s k)) = k)"

text \<open>
  The same with the number \<open>n\<close> of slots allocated since \<open>ad_init\<close> made explicit; \<open>n\<close> may
  reach 256, where the byte counters have wrapped to 0.
\<close>

definition alloc_inv :: "nat \<Rightarrow> ad_state \<Rightarrow> bool" where
  "alloc_inv n s \<longleftrightarrow>
     n \<le> DEBUG_QUEUE_SIZE \<and>
     m_queue_size s = of_nat n \<and>
     m_head s = of_nat n \<and>
     (\<forall>i. unat i < n \<longrightarrow> m_hash_lookup s (index (m_debug_queue s i)) = i) \<and>
     (\<forall>k. m_hash_lookup s k \<noteq> ANT_DEBUG_FIELD_INVALID \<longrightarrow>
          unat (m_hash_lookup s k) < n \<and> index (m_debug_queue s (m_hash_lookup s k)) = k)"

text \<open>
  A registry whose keys all lie in the key domain 0..254: the reserved key 255 has no slot,
  the slots below \<open>m_head\<close> are the occupied ones, and slots and lookup entries agree.
\<close>

definition reg_ok :: "ad_state \<Rightarrow> bool" where
  "reg_ok s \<longleftrightarrow>
     m_queue_size s = m_head s \<and>
     m_hash_lookup s ANT_DEBUG_FIELD_INVALID = ANT_DEBUG_FIELD_INVALID \<and>
     (\<forall>i. i < m_head s \<longrightarrow> m_hash_lookup s (index (m_debug_queue s i)) = i) \<and>
     (\<forall>k. m_hash_lookup s k \<noteq> ANT_DEBUG_FIELD_INVALID \<longrightarrow>
          m_hash_lookup s k < m_head s \<and> index (m_debug_queue s (m_hash_lookup s k)) = k)"

text \<open>The three bytes at offset \<open>n\<close> of a page are the key and the value of slot \<open>i\<close>.\<close>

definition field_at :: "ad_state \<Rightarrow> u8 \<Rightarrow> buffer \<Rightarrow> nat \<Rightarrow> bool" where
  "field_at s i d n \<longleftrightarrow>
     d n = index (m_debug_queue s i) \<and>
     d (n + 1) = ucast (value (m_debug_queue s i)) \<and>
     d (n + 2) = ucast (drop_bit 8 (value (m_debug_queue s i)))"

text \<open>
  The number of cursor steps after which a cursor at \<open>c\<close> stands on slot \<open>j\<close>: the
  cursor counts up to \<open>j\<close>, or runs to the end of the occupied slots (from beyond them it
  takes one step), wraps to slot 0 and counts up to \<open>j\<close>.
\<close>

definition steps_to :: "ad_state \<Rightarrow> u8 \<Rightarrow> u8 \<Rightarrow> nat" where
  "steps_to s j c =
     (if unat c \<le> unat j then unat j - unat c
      else (if c < m_queue_size s then unat (m_queue_size s) - unat c else 1) + unat j)"

text \<open>
  The filter is in force for the keys \<open>K\<close>: selective mode is on, some key of \<open>K\<close> has a slot
  with the \<open>output\<close> flag set, and every slot with the flag set is the slot of a key of \<open>K\<close>.
\<close>

definition filtered_to :: "u8 set \<Rightarrow> ad_state \<Rightarrow> bool" where
  "filtered_to K s \<longleftrightarrow>
     reg_ok s \<and> m_selective_debug s \<and>
     (\<exists>k \<in> K. m_hash_lookup s k \<noteq> ANT_DEBUG_FIELD_INVALID \<and>
               output (m_debug_queue s (m_hash_lookup s k))) \<and>
     (\<forall>i. output (m_debug_queue s i) \<longrightarrow>
          (\<exists>k \<in> K. m_hash_lookup s k \<noteq> ANT_DEBUG_FIELD_INVALID \<and> m_hash_lookup s k = i))"

section \<open>Properties\<close>

subsection \<open>Initialisation\<close>

lemma ad_init_loop_eq:
  "unat i \<le> 256 \<Longrightarrow> ad_init_loop i s =
     s\<lparr> m_debug_queue := (\<lambda>x. if unat i \<le> unat x
                               then (m_debug_queue s x)\<lparr> index := 0, value := 0 \<rparr>
                               else m_debug_queue s x),
        m_hash_lookup := (\<lambda>x. if unat i \<le> unat x then ANT_DEBUG_FIELD_INVALID
                               else m_hash_lookup s x) \<rparr>"
proof (induction i s rule: ad_init_loop.induct)
  case (1 i s)
  show ?case
  proof (cases "i < 256")
    case True
    then have lt: "unat i < 256"
      by (simp add: word_less_nat_alt)
    then have suc: "unat (i + 1) = unat i + 1"
      by (simp add: unat_word_ariths)
    have uc: "unat (ucast i :: u8) = unat i"
      using lt by (simp add: unsigned_ucast_eq take_bit_nat_eq_self)
    have eqi: "\<And>x :: u8. (x = ucast i) = (unat x = unat i)"
      using uc by (simp add: word_unat_eq_iff)
    have pre: "unat (i + 1) \<le> 256"
      using lt suc by simp
    note IH = "1.IH" [OF True pre]
    show ?thesis
      apply (subst ad_init_loop.simps)
      apply (simp only: True if_True)
      apply (subst IH)
      apply (rule ad_state.equality; simp add: fun_eq_iff suc eqi)
       apply (auto simp: eqi [symmetric] not_less_eq_eq dest!: le_antisym)
      done
  next
    case False
    then have "unat i = 256"
      using "1.prems" by (simp add: word_less_nat_alt)
    moreover have "\<And>x :: u8. unat x < 256"
      by (rule order_less_le_trans [OF unsigned_less]) simp
    ultimately have "\<And>x :: u8. \<not> unat i \<le> unat x"
      by (simp add: not_le)
    then show ?thesis
      using False by (subst ad_init_loop.simps) simp
  qed
qed

text \<open>The loop visits all 256 slots, so \<open>ad_init\<close> has a closed form.\<close>

lemma ad_init_eq:
  "ad_init s =
     s\<lparr> m_queue_size := 0,
        m_current_index_debug_channel := 0,
        m_head := 0,
        m_selective_debug := False,
        m_fast_debug_byte := 0xFF,
        m_debug_queue := (\<lambda>x. (m_debug_queue s x)\<lparr> index := 0, value := 0 \<rparr>),
        m_hash_lookup := (\<lambda>x. ANT_DEBUG_FIELD_INVALID) \<rparr>"
  by (simp add: ad_init_def ad_init_loop_eq)

subsection \<open>The two branches of \<open>ad_set_debug_field\<close>\<close>

lemma set_known:
  "m_hash_lookup s k \<noteq> ANT_DEBUG_FIELD_INVALID \<Longrightarrow>
   ad_set_debug_field k v s =
     s\<lparr> m_debug_queue := (m_debug_queue s)
          (m_hash_lookup s k := (m_debug_queue s (m_hash_lookup s k))\<lparr> value := v \<rparr>) \<rparr>"
  by (simp add: ad_set_debug_field_def Let_def)

lemma set_unknown:
  "m_hash_lookup s k = ANT_DEBUG_FIELD_INVALID \<Longrightarrow>
   ad_set_debug_field k v s =
     s\<lparr> m_hash_lookup := (m_hash_lookup s)(k := m_head s),
        m_debug_queue := (m_debug_queue s)
          (m_head s := (m_debug_queue s (m_head s))\<lparr> index := k, value := v \<rparr>),
        m_head := m_head s + 1,
        m_queue_size := m_queue_size s + 1 \<rparr>"
  by (simp add: ad_set_debug_field_def Let_def)

subsection \<open>Reading a key that was never set\<close>

text \<open>
  Claim C2 says that \<open>get\<close> of a key never passed to \<open>set\<close> returns absent and reads no
  unallocated slot. The code does otherwise: the lookup entry of such a key is the sentinel
  255, which \<open>ad_get_debug_field\<close> uses as a slot number; slot 255 is not allocated, and
  \<open>ad_init\<close> has left the key 0 in it, not the invalid key the test compares with. After
  \<open>ad_init\<close> and \<open>ad_set_debug_field(5, 100)\<close>, reading key 7 returns true with the value 0.
\<close>

theorem get_unset_key_returns_value:
  "ad_get_debug_field 7 (ad_set_debug_field 5 100 (ad_init power_on)) = Some 0"
  by (simp add: ad_init_eq ad_get_debug_field_def ad_set_debug_field_def power_on_def
      ANT_DEBUG_FIELD_INVALID_def)

subsection \<open>Incrementing an absent key\<close>

text \<open>
  Claim C3 says that incrementing an absent key is a no-op. The code does otherwise, for the
  reason seen at C2: \<open>ad_get_debug_field\<close> returns true with the value 0 for the absent key
  7, so \<open>ad_increment_debug_field(7)\<close> on the initialised registry calls
  \<open>ad_set_debug_field(7, 1)\<close>, which allocates slot 0 for the key.
\<close>

theorem increment_absent_key_registers:
  "ad_get_debug_field 7 (ad_init power_on) = Some 0 \<and>
   m_queue_size (ad_increment_debug_field 7 (ad_init power_on)) = 1 \<and>
   m_hash_lookup (ad_increment_debug_field 7 (ad_init power_on)) 7 = 0 \<and>
   m_debug_queue (ad_increment_debug_field 7 (ad_init power_on)) 0 =
     \<lparr> index = 7, value = 1, output = False \<rparr>"
  by (simp add: ad_init_eq ad_increment_debug_field_def ad_get_debug_field_def
      ad_set_debug_field_def power_on_def ANT_DEBUG_FIELD_INVALID_def)

subsection \<open>What \<open>ad_init\<close> resets\<close>

text \<open>
  Claim C8: \<open>ad_init\<close> resets the slot count, the cursor, the head, the selective-mode flag,
  the fast byte and the key, the value and the lookup entry of every slot, and leaves the
  \<open>output\<close> flag of every slot as it was. So the first field registered after a
  re-initialisation, which takes slot 0, has the \<open>output\<close> flag that slot 0 had before.
\<close>

theorem ad_init_keeps_output:
  "m_queue_size (ad_init s) = 0 \<and>
   m_current_index_debug_channel (ad_init s) = 0 \<and>
   m_head (ad_init s) = 0 \<and>
   \<not> m_selective_debug (ad_init s) \<and>
   m_fast_debug_byte (ad_init s) = 0xFF \<and>
   (\<forall>i. index (m_debug_queue (ad_init s) i) = 0 \<and>
        value (m_debug_queue (ad_init s) i) = 0 \<and>
        m_hash_lookup (ad_init s) i = ANT_DEBUG_FIELD_INVALID \<and>
        output (m_debug_queue (ad_init s) i) = output (m_debug_queue s i)) \<and>
   (\<forall>k v. output (m_debug_queue (ad_set_debug_field k v (ad_init s))
                   (m_hash_lookup (ad_set_debug_field k v (ad_init s)) k))
          = output (m_debug_queue s 0))"
proof -
  have fresh: "m_hash_lookup (ad_init s) k = ANT_DEBUG_FIELD_INVALID" for k
    by (simp add: ad_init_eq)
  have kept: "output (m_debug_queue (ad_init s) i) = output (m_debug_queue s i)" for i
    by (simp add: ad_init_eq)
  have first: "output (m_debug_queue (ad_set_debug_field k v (ad_init s))
                   (m_hash_lookup (ad_set_debug_field k v (ad_init s)) k))
          = output (m_debug_queue s 0)" for k v
  proof -
    have "m_hash_lookup (ad_set_debug_field k v (ad_init s)) k = m_head (ad_init s)"
      by (simp add: set_unknown [OF fresh])
    moreover have "m_head (ad_init s) = 0"
      by (simp add: ad_init_eq)
    moreover have "output (m_debug_queue (ad_set_debug_field k v (ad_init s)) 0)
                     = output (m_debug_queue (ad_init s) 0)"
      by (simp add: set_unknown [OF fresh])
    ultimately show ?thesis
      using kept [of 0] by simp
  qed
  have reset: "index (m_debug_queue (ad_init s) i) = 0 \<and> value (m_debug_queue (ad_init s) i) = 0"
    for i
    by (simp add: ad_init_eq)
  have "m_queue_size (ad_init s) = 0" "m_current_index_debug_channel (ad_init s) = 0"
    "m_head (ad_init s) = 0" "\<not> m_selective_debug (ad_init s)"
    "m_fast_debug_byte (ad_init s) = 0xFF"
    by (simp_all add: ad_init_eq)
  with fresh kept first reset show ?thesis
    by blast
qed

subsection \<open>A page build that does not return\<close>

text \<open>
  In selective mode with no slot included the loop makes no progress: whenever the loop
  returns, its counter has reached 2 already.
\<close>

lemma get_page_loop_no_output_aux:
  assumes ret: "get_page_loop s count d c = Some r"
  shows "m_selective_debug s \<longrightarrow> (\<forall>i. \<not> output (m_debug_queue s i)) \<longrightarrow> \<not> count < 2"
proof (rule get_page_loop.raw_induct
    [where P = "\<lambda>s count d c r. m_selective_debug s \<longrightarrow>
                  (\<forall>i. \<not> output (m_debug_queue s i)) \<longrightarrow> \<not> count < 2", OF _ ret])
  fix loop :: "ad_state \<Rightarrow> u8 \<Rightarrow> buffer \<Rightarrow> u8 \<Rightarrow> (buffer \<times> u8) option"
  fix s count d c r
  assume IH: "\<And>s count d c r. loop s count d c = Some r \<Longrightarrow>
                m_selective_debug s \<longrightarrow> (\<forall>i. \<not> output (m_debug_queue s i)) \<longrightarrow> \<not> count < 2"
  assume eq: "(if count < 2
      then if ad_output_debug_mesg s c
           then loop s (count + 1)
                 (write_field s c (ANT_PAGE_DEBUG_KEY0_INDEX + count * ANT_PAGE_DEBUG_VALUE_SIZE) d)
                 (advance s c)
           else loop s count d (advance s c)
      else Some (d, c)) = Some r"
  show "m_selective_debug s \<longrightarrow> (\<forall>i. \<not> output (m_debug_queue s i)) \<longrightarrow> \<not> count < 2"
  proof (intro impI notI)
    assume sel: "m_selective_debug s" and none: "\<forall>i. \<not> output (m_debug_queue s i)"
      and lt: "count < 2"
    have no: "\<not> ad_output_debug_mesg s c"
      using sel none by (simp add: ad_output_debug_mesg_def)
    from eq lt no have "loop s count d (advance s c) = Some r"
      by simp
    from IH [OF this] sel none lt show False
      by simp
  qed
qed

lemma get_page_loop_no_output:
  assumes "m_selective_debug s" and "\<forall>i. \<not> output (m_debug_queue s i)" and "count < 2"
  shows "get_page_loop s count d c = None"
proof (cases "get_page_loop s count d c")
  case None
  then show ?thesis .
next
  case (Some r)
  from get_page_loop_no_output_aux [OF Some] assms show ?thesis
    by simp
qed

lemma filter_add_loop_unroll:
  "filter_add_loop payload 3 s =
     filter_add_body (payload 7) (filter_add_body (payload 6) (filter_add_body (payload 5)
       (filter_add_body (payload 4) (filter_add_body (payload 3) s))))"
  by (simp add: filter_add_loop.simps)

lemma filter_add_body_invalid:
  "filter_add_body ANT_DEBUG_FIELD_INVALID s = s"
  by (simp add: filter_add_body_def)

text \<open>
  Claim C1 says that building a page always terminates. The code does otherwise: with
  selective mode on, a non-empty registry and no slot included, the \<open>while (count < 2)\<close>
  loop never finds a field to emit and never leaves. That state is reached by \<open>ad_init\<close>,
  \<open>ad_set_debug_field(5, 100)\<close> and a filter-add message whose five arguments are all the
  skipped byte 255; the page build of the next transmit opportunity does not return.
\<close>

theorem page_build_never_returns:
  "ad_update_tx
     (ad_decode_debug_command (payload_of [0xF9, 3, 1, 255, 255, 255, 255, 255])
        (ad_set_debug_field 5 100 (ad_init power_on))) = None"
proof -
  let ?s = "ad_set_debug_field 5 100 (ad_init power_on)"
  let ?p = "payload_of [0xF9, 3, 1, 255, 255, 255, 255, 255]"
  have dec: "ad_decode_debug_command ?p ?s = ?s\<lparr> m_selective_debug := True \<rparr>"
    by (simp add: ad_decode_debug_command_def payload_of_def ANT_DEBUG_FILTER_COMMAND_def
        ANT_DEBUG_SUB_COMMAND_FILTER_ADD_def filter_add_loop_unroll
        filter_add_body_invalid [unfolded ANT_DEBUG_FIELD_INVALID_def])
  have size: "m_queue_size (?s\<lparr> m_selective_debug := True \<rparr>) = 1"
    by (simp add: ad_init_eq set_unknown)
  have none: "\<forall>i. \<not> output (m_debug_queue (?s\<lparr> m_selective_debug := True \<rparr>) i)"
    by (simp add: ad_init_eq set_unknown power_on_def)
  have "get_page_loop (?s\<lparr> m_selective_debug := True \<rparr>) 0 d c = None" for d c
    by (rule get_page_loop_no_output [OF _ none]) simp_all
  then show ?thesis
    unfolding dec by (simp add: ad_update_tx_def ad_get_debug_page_def size)
qed

subsection \<open>Page builds that return\<close>

lemma u8_bound: "unat (x :: u8) < 256"
  by (rule order_less_le_trans [OF unsigned_less]) simp

lemma unat_succ_u8: "unat (c + 1 :: u8) = (if unat c = 255 then 0 else unat c + 1)"
  using u8_bound [of c] by (simp add: unat_word_ariths)

lemma advance_in_range:
  "0 < m_queue_size s \<Longrightarrow> advance s c < m_queue_size s"
  by (simp add: advance_def not_le)

lemma steps_to_bound: "steps_to s j c < 1000"
  using u8_bound [of j] u8_bound [of c] u8_bound [of "m_queue_size s"]
  by (auto simp: steps_to_def)

lemma steps_to_advance:
  assumes "j < m_queue_size s" and "c \<noteq> j"
  shows "steps_to s j (advance s c) < steps_to s j c"
proof -
  have ne: "unat c \<noteq> unat j"
    using assms(2) by (simp add: word_unat_eq_iff)
  have lt: "unat j < unat (m_queue_size s)"
    using assms(1) by (simp add: word_less_nat_alt)
  show ?thesis
    using ne lt u8_bound [of "m_queue_size s"] u8_bound [of c]
    by (auto simp: steps_to_def advance_def word_less_nat_alt word_le_nat_alt unat_succ_u8
        split: if_splits)
qed

lemma count_cases: "count \<le> (2 :: u8) \<Longrightarrow> count = 0 \<or> count = 1 \<or> count = 2"
proof -
  assume "count \<le> 2"
  then have "unat count \<le> 2"
    by (simp add: word_le_nat_alt)
  then have "unat count = 0 \<or> unat count = 1 \<or> unat count = 2"
    by arith
  then show ?thesis
    by (auto simp: word_unat_eq_iff)
qed


lemma key_offset:
  "count = 0 \<or> count = 1 \<Longrightarrow>
   unat (ANT_PAGE_DEBUG_KEY0_INDEX + count * ANT_PAGE_DEBUG_VALUE_SIZE) = 2 + 3 * unat count"
  by (auto simp: ANT_PAGE_DEBUG_KEY0_INDEX_def ANT_PAGE_DEBUG_VALUE_SIZE_def)

lemma write_field_frame:
  "n < unat idx \<or> unat idx + 2 < n \<Longrightarrow> write_field s i idx d n = d n"
  by (auto simp: write_field_def)

lemma write_field_at:
  "field_at s i (write_field s i idx d) (unat idx)"
  by (simp add: write_field_def field_at_def)

lemma field_at_cong:
  "field_at s i d n \<Longrightarrow> d' n = d n \<Longrightarrow> d' (n + 1) = d (n + 1) \<Longrightarrow> d' (n + 2) = d (n + 2) \<Longrightarrow>
   field_at s i d' n"
  by (simp add: field_at_def)

text \<open>
  When some occupied slot \<open>j\<close> is eligible, the loop returns from every counter value,
  buffer and cursor. It leaves the bytes before its first pair and beyond offset 7 alone,
  and each pair it has still to write holds a field of an eligible slot, which is an
  occupied slot or the slot the cursor stood on at entry.
\<close>

lemma get_page_loop_returns:
  assumes j: "j < m_queue_size s" and el: "ad_output_debug_mesg s j"
  shows "count \<le> 2 \<Longrightarrow>
         \<exists>d' c'. get_page_loop s count d c = Some (d', c') \<and>
           (\<forall>n. n < 2 + 3 * unat count \<or> 8 \<le> n \<longrightarrow> d' n = d n) \<and>
           (\<forall>m. unat count \<le> m \<and> m < 2 \<longrightarrow>
                (\<exists>i. (i < m_queue_size s \<or> i = c) \<and> ad_output_debug_mesg s i \<and>
                     field_at s i d' (2 + 3 * m)))"
proof (induction "(2 - unat count) * 1000 + steps_to s j c" arbitrary: count d c
    rule: less_induct)
  case less
  have pos: "0 < m_queue_size s"
    using j by (auto simp: word_less_nat_alt)
  note adv = advance_in_range [OF pos]
  from count_cases [OF less.prems] consider "count = 2" | "count = 0 \<or> count = 1"
    by blast
  then show ?case
  proof cases
    case 1
    then show ?thesis
      by (subst get_page_loop.simps) auto
  next
    case 2
    then have lt: "count < 2" and uc: "unat count < 2" and le: "count + 1 \<le> 2"
      and suc: "unat (count + 1) = unat count + 1"
      by auto
    note off = key_offset [OF 2]
    show ?thesis
    proof (cases "ad_output_debug_mesg s c")
      case True
      let ?d1 = "write_field s c (ANT_PAGE_DEBUG_KEY0_INDEX + count * ANT_PAGE_DEBUG_VALUE_SIZE) d"
      have "(2 - unat (count + 1)) * 1000 + steps_to s j (advance s c)
              < (2 - unat count) * 1000 + steps_to s j c"
        using uc suc steps_to_bound [of s j "advance s c"] by simp
      from less.hyps [OF this le, of ?d1]
      obtain d' c' where ret: "get_page_loop s (count + 1) ?d1 (advance s c) = Some (d', c')"
        and frame: "\<And>n. n < 2 + 3 * unat (count + 1) \<or> 8 \<le> n \<Longrightarrow> d' n = ?d1 n"
        and pairs: "\<And>m. unat (count + 1) \<le> m \<and> m < 2 \<Longrightarrow>
                      \<exists>i. (i < m_queue_size s \<or> i = advance s c) \<and> ad_output_debug_mesg s i \<and>
                          field_at s i d' (2 + 3 * m)"
        by blast
      have eq: "get_page_loop s count d c = Some (d', c')"
        using lt True ret by (subst get_page_loop.simps) simp
      have fr: "d' n = d n" if "n < 2 + 3 * unat count \<or> 8 \<le> n" for n
      proof -
        have "d' n = ?d1 n"
          using that uc suc by (intro frame) auto
        also have "\<dots> = d n"
          using that uc by (intro write_field_frame) (auto simp: off)
        finally show ?thesis .
      qed
      have "field_at s c ?d1 (2 + 3 * unat count)"
        using write_field_at [of s c "ANT_PAGE_DEBUG_KEY0_INDEX + count * ANT_PAGE_DEBUG_VALUE_SIZE" d]
        by (simp only: off)
      then have here: "field_at s c d' (2 + 3 * unat count)"
        by (rule field_at_cong) (simp_all add: frame suc)
      have pr: "\<exists>i. (i < m_queue_size s \<or> i = c) \<and> ad_output_debug_mesg s i \<and>
                  field_at s i d' (2 + 3 * m)" if "unat count \<le> m \<and> m < 2" for m
      proof (cases "m = unat count")
        case True
        with here \<open>ad_output_debug_mesg s c\<close> show ?thesis
          by blast
      next
        case False
        with that suc have "unat (count + 1) \<le> m \<and> m < 2"
          by simp
        from pairs [OF this] adv show ?thesis
          by metis
      qed
      from eq fr pr show ?thesis
        by blast
    next
      case False
      with el have "c \<noteq> j"
        by auto
      from steps_to_advance [OF j this]
      have "(2 - unat count) * 1000 + steps_to s j (advance s c)
              < (2 - unat count) * 1000 + steps_to s j c"
        by simp
      from less.hyps [OF this less.prems, of d]
      obtain d' c' where ret: "get_page_loop s count d (advance s c) = Some (d', c')"
        and frame: "\<And>n. n < 2 + 3 * unat count \<or> 8 \<le> n \<Longrightarrow> d' n = d n"
        and pairs: "\<And>m. unat count \<le> m \<and> m < 2 \<Longrightarrow>
                      \<exists>i. (i < m_queue_size s \<or> i = advance s c) \<and> ad_output_debug_mesg s i \<and>
                          field_at s i d' (2 + 3 * m)"
        by blast
      have eq: "get_page_loop s count d c = Some (d', c')"
        using lt False ret by (subst get_page_loop.simps) simp
      have pr: "\<exists>i. (i < m_queue_size s \<or> i = c) \<and> ad_output_debug_mesg s i \<and>
                  field_at s i d' (2 + 3 * m)" if "unat count \<le> m \<and> m < 2" for m
        using pairs [OF that] adv by metis
      from eq frame pr show ?thesis
        by blast
    qed
  qed
qed

subsection \<open>Evaluation on concrete runs\<close>

lemmas const_defs =
  ANT_DEBUG_FIELD_INVALID_def ANT_DEBUG_PAGE_MESSAGE_def ANT_FAST_DEBUG_BYTE_INDEX_def
  ANT_DEBUG_FILTER_COMMAND_def ANT_DEBUG_SUB_COMMAND_FILTER_ADD_def
  ANT_DEBUG_SUB_COMMAND_FILTER_CLEAR_def ANT_RESERVED_BYTE_def ANT_PAGE_DEBUG_KEY0_INDEX_def
  ANT_PAGE_DEBUG_VALUE_SIZE_def DEBUG_QUEUE_SIZE_def

lemmas eval_defs =
  ad_init_eq power_on_def ad_set_debug_field_def ad_get_debug_field_def
  ad_increment_debug_field_def ad_decode_debug_command_def filter_add_loop_unroll
  filter_add_body_def payload_of_def Let_def

subsection \<open>A single included field\<close>

text \<open>
  Claim C10: in selective mode, with a non-empty registry whose only occupied slot with the
  \<open>output\<close> flag set is \<open>j\<close>, and the cursor on an occupied slot, building a page returns,
  and both pairs of the page (offsets 2..4 and 5..7) hold the key of slot \<open>j\<close> and its value,
  low byte first: the one field is sent twice in the page.
\<close>

theorem single_included_field_twice:
  assumes sel: "m_selective_debug s"
    and j: "j < m_queue_size s"
    and inc: "output (m_debug_queue s j)"
    and only: "\<forall>i. i < m_queue_size s \<longrightarrow> i \<noteq> j \<longrightarrow> \<not> output (m_debug_queue s i)"
    and c: "c < m_queue_size s"
  shows "\<exists>d' c'. ad_get_debug_page s d c = Some (d', c') \<and>
           d' 0 = ANT_DEBUG_PAGE_MESSAGE \<and> d' 1 = m_fast_debug_byte s \<and>
           field_at s j d' 2 \<and> field_at s j d' 5"
proof -
  let ?d0 = "d(0 := ANT_DEBUG_PAGE_MESSAGE, ANT_FAST_DEBUG_BYTE_INDEX := m_fast_debug_byte s)"
  have el: "ad_output_debug_mesg s j"
    using inc by (simp add: ad_output_debug_mesg_def)
  have uniq: "i = j" if "i < m_queue_size s \<or> i = c" and "ad_output_debug_mesg s i" for i
    using that sel only c by (auto simp: ad_output_debug_mesg_def)
  from get_page_loop_returns [OF j el, of 0 ?d0 c]
  obtain d' c' where ret: "get_page_loop s 0 ?d0 c = Some (d', c')"
    and frame: "\<And>n. n < 2 \<or> 8 \<le> n \<Longrightarrow> d' n = ?d0 n"
    and pairs: "\<And>m. m < 2 \<Longrightarrow> \<exists>i. (i < m_queue_size s \<or> i = c) \<and> ad_output_debug_mesg s i \<and>
                          field_at s i d' (2 + 3 * m)"
    by auto
  from pairs [of 0] uniq have p0: "field_at s j d' 2"
    by auto
  from pairs [of 1] uniq have p1: "field_at s j d' 5"
    by auto
  have pos: "0 < m_queue_size s"
    using j by (auto simp: word_less_nat_alt)
  have "ad_get_debug_page s d c = Some (d', c')"
    using pos ret by (simp add: ad_get_debug_page_def)
  moreover have "d' 0 = ANT_DEBUG_PAGE_MESSAGE" "d' 1 = m_fast_debug_byte s"
    using frame [of 0] frame [of 1] by (simp_all add: ANT_FAST_DEBUG_BYTE_INDEX_def)
  ultimately show ?thesis
    using p0 p1 by blast
qed

theorem single_included_field_twice_witness:
  "(let s = ad_decode_debug_command (payload_of [0xF9, 3, 1, 9, 255, 255, 255, 255])
              (ad_set_debug_field 9 7 (ad_set_debug_field 5 100 (ad_init power_on)))
    in m_selective_debug s \<and> 1 < m_queue_size s \<and> output (m_debug_queue s 1) \<and>
       (\<forall>i. i < m_queue_size s \<longrightarrow> i \<noteq> 1 \<longrightarrow> \<not> output (m_debug_queue s i)) \<and>
       0 < m_queue_size s \<and>
       (\<exists>d' c'. ad_get_debug_page s (\<lambda>_. 0) 0 = Some (d', c') \<and>
           d' 0 = 0xF9 \<and> d' 1 = 0xFF \<and>
           d' 2 = 9 \<and> d' 3 = 7 \<and> d' 4 = 0 \<and> d' 5 = 9 \<and> d' 6 = 7 \<and> d' 7 = 0))"
proof -
  define s where "s = ad_decode_debug_command (payload_of [0xF9, 3, 1, 9, 255, 255, 255, 255])
              (ad_set_debug_field 9 7 (ad_set_debug_field 5 100 (ad_init power_on)))"
  have sel: "m_selective_debug s"
    by (simp add: s_def eval_defs const_defs)
  have j: "1 < m_queue_size s"
    by (simp add: s_def eval_defs const_defs)
  have inc: "output (m_debug_queue s 1)"
    by (simp add: s_def eval_defs const_defs)
  have only: "\<forall>i. i < m_queue_size s \<longrightarrow> i \<noteq> 1 \<longrightarrow> \<not> output (m_debug_queue s i)"
    by (simp add: s_def eval_defs const_defs)
  have c: "0 < m_queue_size s"
    by (simp add: s_def eval_defs const_defs)
  have slot: "m_debug_queue s 1 = \<lparr> index = 9, value = 7, output = True \<rparr>"
    and fast: "m_fast_debug_byte s = 0xFF"
    by (simp_all add: s_def eval_defs const_defs)
  from single_included_field_twice [OF sel j inc only c, of "\<lambda>_. 0"]
  show ?thesis
    unfolding s_def [symmetric] Let_def using sel j inc only c
    by (simp add: field_at_def slot fast const_defs)
qed

subsection \<open>The reserved key and the public set operation\<close>

text \<open>
  Claim C9: \<open>ad_set_debug_field\<close> has no check for the reserved key. Called with key 255
  when 255 has no lookup entry, it allocates the slot at \<open>m_head\<close> for it, stores the key
  and the value there and moves \<open>m_head\<close> and \<open>m_queue_size\<close> by one, which is what it does
  for every unknown key; it is the decoder's loop body that skips the byte 255.
\<close>

theorem set_reserved_key_allocates:
  assumes "m_hash_lookup s ANT_DEBUG_FIELD_INVALID = ANT_DEBUG_FIELD_INVALID"
  shows "m_hash_lookup (ad_set_debug_field ANT_DEBUG_FIELD_INVALID v s) ANT_DEBUG_FIELD_INVALID
           = m_head s \<and>
         m_debug_queue (ad_set_debug_field ANT_DEBUG_FIELD_INVALID v s) (m_head s)
           = \<lparr> index = ANT_DEBUG_FIELD_INVALID, value = v,
               output = output (m_debug_queue s (m_head s)) \<rparr> \<and>
         m_head (ad_set_debug_field ANT_DEBUG_FIELD_INVALID v s) = m_head s + 1 \<and>
         m_queue_size (ad_set_debug_field ANT_DEBUG_FIELD_INVALID v s) = m_queue_size s + 1 \<and>
         (\<forall>k. m_hash_lookup s k = ANT_DEBUG_FIELD_INVALID \<longrightarrow>
              ad_set_debug_field k v s =
                s\<lparr> m_hash_lookup := (m_hash_lookup s)(k := m_head s),
                   m_debug_queue := (m_debug_queue s)
                     (m_head s := (m_debug_queue s (m_head s))\<lparr> index := k, value := v \<rparr>),
                   m_head := m_head s + 1,
                   m_queue_size := m_queue_size s + 1 \<rparr>) \<and>
         filter_add_body ANT_DEBUG_FIELD_INVALID s = s"
  using assms by (simp add: set_unknown filter_add_body_def)

theorem set_reserved_key_allocates_witness:
  "m_hash_lookup (ad_init power_on) ANT_DEBUG_FIELD_INVALID = ANT_DEBUG_FIELD_INVALID \<and>
   m_hash_lookup (ad_set_debug_field ANT_DEBUG_FIELD_INVALID 1 (ad_init power_on))
      ANT_DEBUG_FIELD_INVALID = 0 \<and>
   m_queue_size (ad_set_debug_field ANT_DEBUG_FIELD_INVALID 1 (ad_init power_on)) = 1 \<and>
   m_debug_queue (ad_set_debug_field ANT_DEBUG_FIELD_INVALID 1 (ad_init power_on)) 0
     = \<lparr> index = 0xFF, value = 1, output = False \<rparr>"
proof -
  have h: "m_hash_lookup (ad_init power_on) ANT_DEBUG_FIELD_INVALID = ANT_DEBUG_FIELD_INVALID"
    by (simp add: ad_init_eq)
  from set_reserved_key_allocates [OF h, of 1] h show ?thesis
    by (simp add: ad_init_eq power_on_def ANT_DEBUG_FIELD_INVALID_def)
qed

subsection \<open>Invariants: what they depend on\<close>

lemma alloc_inv_cong:
  assumes "m_queue_size s' = m_queue_size s" and "m_head s' = m_head s"
    and "m_hash_lookup s' = m_hash_lookup s"
    and "\<And>i. index (m_debug_queue s' i) = index (m_debug_queue s i)"
  shows "alloc_inv n s' = alloc_inv n s"
  using assms by (simp add: alloc_inv_def)

lemma reg_ok_alloc_inv:
  "reg_ok s \<longleftrightarrow>
     alloc_inv (unat (m_head s)) s \<and>
     m_hash_lookup s ANT_DEBUG_FIELD_INVALID = ANT_DEBUG_FIELD_INVALID"
  using u8_bound [of "m_head s"]
  by (auto simp: reg_ok_def alloc_inv_def DEBUG_QUEUE_SIZE_def word_less_nat_alt)

lemma reg_ok_cong:
  assumes "m_queue_size s' = m_queue_size s" and "m_head s' = m_head s"
    and "m_hash_lookup s' = m_hash_lookup s"
    and "\<And>i. index (m_debug_queue s' i) = index (m_debug_queue s i)"
  shows "reg_ok s' = reg_ok s"
  using assms by (simp add: reg_ok_def)

lemma alloc_inv_lookup_invariant:
  assumes "alloc_inv n s"
  shows "lookup_invariant s"
proof -
  have "unat (m_queue_size s) \<le> n"
    using assms by (simp add: alloc_inv_def unat_of_nat)
  then have "unat i < n" if "i < m_queue_size s" for i
    using that by (simp add: word_less_nat_alt)
  with assms show ?thesis
    by (simp add: alloc_inv_def lookup_invariant_def)
qed

lemma alloc_inv_init: "alloc_inv 0 (ad_init s)"
  by (simp add: alloc_inv_def ad_init_eq)

lemma reg_ok_init: "reg_ok (ad_init s)"
  by (simp add: reg_ok_def ad_init_eq)

subsection \<open>Allocation and the invariants\<close>

lemma set_head:
  "m_head (ad_set_debug_field k v s) =
     (if m_hash_lookup s k = ANT_DEBUG_FIELD_INVALID then m_head s + 1 else m_head s)"
  by (simp add: set_known set_unknown)

lemma alloc_inv_set_known:
  "alloc_inv n s \<Longrightarrow> m_hash_lookup s k \<noteq> ANT_DEBUG_FIELD_INVALID \<Longrightarrow>
   alloc_inv n (ad_set_debug_field k v s)"
  by (subst alloc_inv_cong [where s = s]) (simp_all add: set_known)

lemma alloc_inv_set_unknown:
  assumes inv: "alloc_inv n s" and unk: "m_hash_lookup s k = ANT_DEBUG_FIELD_INVALID"
    and room: "n < DEBUG_QUEUE_SIZE"
  shows "alloc_inv (Suc n) (ad_set_debug_field k v s)"
proof -
  have n: "n < 256"
    using room by (simp add: DEBUG_QUEUE_SIZE_def)
  have head: "m_head s = of_nat n" and size: "m_queue_size s = of_nat n"
    using inv by (simp_all add: alloc_inv_def)
  have uh: "unat (m_head s) = n"
    using n by (simp add: head unat_of_nat)
  have slots: "\<And>i. unat i < n \<Longrightarrow> m_hash_lookup s (index (m_debug_queue s i)) = i"
    and keys: "\<And>k. m_hash_lookup s k \<noteq> ANT_DEBUG_FIELD_INVALID \<Longrightarrow>
                 unat (m_hash_lookup s k) < n \<and> index (m_debug_queue s (m_hash_lookup s k)) = k"
    using inv by (simp_all add: alloc_inv_def)
  have below: "i \<noteq> m_head s" if "unat i < n" for i
    using that uh by auto
  have other: "index (m_debug_queue s i) \<noteq> k" if "unat i < n" for i
  proof
    assume "index (m_debug_queue s i) = k"
    with slots [OF that] unk have "i = ANT_DEBUG_FIELD_INVALID"
      by simp
    with that n show False
      by (simp add: ANT_DEBUG_FIELD_INVALID_def)
  qed
  have split: "unat i < n \<or> i = m_head s" if "unat i < Suc n" for i
    using that uh by (auto simp: word_unat_eq_iff)
  show ?thesis
    unfolding alloc_inv_def set_unknown [OF unk]
  proof (intro conjI allI impI)
    show "Suc n \<le> DEBUG_QUEUE_SIZE"
      using room by simp
  next
    fix i :: u8
    assume "unat i < Suc n"
    from split [OF this] show "m_hash_lookup
          (s\<lparr>m_hash_lookup := (m_hash_lookup s)(k := m_head s),
               m_debug_queue := (m_debug_queue s)
                 (m_head s := m_debug_queue s (m_head s)\<lparr>index := k, value := v\<rparr>),
               m_head := m_head s + 1, m_queue_size := m_queue_size s + 1\<rparr>)
          (index (m_debug_queue
              (s\<lparr>m_hash_lookup := (m_hash_lookup s)(k := m_head s),
                   m_debug_queue := (m_debug_queue s)
                     (m_head s := m_debug_queue s (m_head s)\<lparr>index := k, value := v\<rparr>),
                   m_head := m_head s + 1, m_queue_size := m_queue_size s + 1\<rparr>) i)) = i"
      using below other slots by auto
  next
    fix k' :: u8
    assume known: "m_hash_lookup
          (s\<lparr>m_hash_lookup := (m_hash_lookup s)(k := m_head s),
               m_debug_queue := (m_debug_queue s)
                 (m_head s := m_debug_queue s (m_head s)\<lparr>index := k, value := v\<rparr>),
               m_head := m_head s + 1, m_queue_size := m_queue_size s + 1\<rparr>) k'
          \<noteq> ANT_DEBUG_FIELD_INVALID"
    show "unat (m_hash_lookup
          (s\<lparr>m_hash_lookup := (m_hash_lookup s)(k := m_head s),
               m_debug_queue := (m_debug_queue s)
                 (m_head s := m_debug_queue s (m_head s)\<lparr>index := k, value := v\<rparr>),
               m_head := m_head s + 1, m_queue_size := m_queue_size s + 1\<rparr>) k') < Suc n"
      using known keys [of k'] uh by (auto split: if_splits)
    show "index (m_debug_queue
            (s\<lparr>m_hash_lookup := (m_hash_lookup s)(k := m_head s),
                 m_debug_queue := (m_debug_queue s)
                   (m_head s := m_debug_queue s (m_head s)\<lparr>index := k, value := v\<rparr>),
                 m_head := m_head s + 1, m_queue_size := m_queue_size s + 1\<rparr>)
            (m_hash_lookup
              (s\<lparr>m_hash_lookup := (m_hash_lookup s)(k := m_head s),
                   m_debug_queue := (m_debug_queue s)
                     (m_head s := m_debug_queue s (m_head s)\<lparr>index := k, value := v\<rparr>),
                   m_head := m_head s + 1, m_queue_size := m_queue_size s + 1\<rparr>) k')) = k'"
      using known keys [of k'] below by (auto split: if_splits)
  qed (simp_all add: head size)
qed


lemma set_allocs:
  "unat (m_head (ad_set_debug_field k v s) - m_head s) =
     (if m_hash_lookup s k = ANT_DEBUG_FIELD_INVALID then 1 else 0)"
  by (simp add: set_head)

lemma alloc_inv_set:
  assumes "alloc_inv n s"
    and "n + unat (m_head (ad_set_debug_field k v s) - m_head s) \<le> DEBUG_QUEUE_SIZE"
  shows "alloc_inv (n + unat (m_head (ad_set_debug_field k v s) - m_head s))
           (ad_set_debug_field k v s)"
proof (cases "m_hash_lookup s k = ANT_DEBUG_FIELD_INVALID")
  case True
  with assms(2) have "n < DEBUG_QUEUE_SIZE"
    by (simp add: set_allocs)
  from alloc_inv_set_unknown [OF assms(1) True this] True show ?thesis
    by (simp add: set_allocs)
next
  case False
  from alloc_inv_set_known [OF assms(1) False] False show ?thesis
    by (simp add: set_allocs)
qed

text \<open>
  A registry of the key domain has a free slot below 255 for every unknown key of the
  domain: the occupied slots hold distinct keys, none of them 255 or the unknown key.
\<close>

lemma reg_ok_free_slot:
  assumes ok: "reg_ok s" and k: "k \<noteq> ANT_DEBUG_FIELD_INVALID"
    and unk: "m_hash_lookup s k = ANT_DEBUG_FIELD_INVALID"
  shows "m_head s \<noteq> 255"
proof
  assume full: "m_head s = 255"
  let ?S = "UNIV - {255 :: u8}"
  let ?f = "\<lambda>i. index (m_debug_queue s i)"
  have lt: "i < m_head s" if "i \<in> ?S" for i
    using that u8_bound [of i] unfolding full
    by (simp add: word_less_nat_alt word_unat_eq_iff)
  have inv: "m_hash_lookup s (?f i) = i" if "i \<in> ?S" for i
    using ok lt [OF that] by (simp add: reg_ok_def)
  have inj: "inj_on ?f ?S"
    by (rule inj_on_inverseI [where g = "m_hash_lookup s"]) (rule inv)
  have sub: "?f ` ?S \<subseteq> UNIV - {255, k}"
  proof
    fix x
    assume "x \<in> ?f ` ?S"
    then obtain i where i: "i \<in> ?S" and x: "x = ?f i"
      by blast
    from inv [OF i] x have "m_hash_lookup s x = i"
      by simp
    with i ok unk show "x \<in> UNIV - {255, k}"
      by (auto simp: reg_ok_def ANT_DEBUG_FIELD_INVALID_def)
  qed
  have cu: "card (UNIV :: u8 set) = 256"
    by (simp add: card_word)
  have "card ?S = 255"
    by (simp add: card_Diff_singleton cu)
  with inj have "card (?f ` ?S) = 255"
    by (simp add: card_image)
  moreover have "card (UNIV - {255, k}) = 254"
    using k by (simp add: card_Diff_insert cu ANT_DEBUG_FIELD_INVALID_def)
  moreover have "card (?f ` ?S) \<le> card (UNIV - {255, k})"
    by (rule card_mono [OF _ sub]) simp
  ultimately show False
    by simp
qed

lemma reg_ok_set:
  assumes ok: "reg_ok s" and k: "k \<noteq> ANT_DEBUG_FIELD_INVALID"
  shows "reg_ok (ad_set_debug_field k v s)"
proof (cases "m_hash_lookup s k = ANT_DEBUG_FIELD_INVALID")
  case True
  from reg_ok_free_slot [OF ok k True] have "unat (m_head s) \<noteq> 255"
    by (simp add: word_unat_eq_iff)
  then have room: "unat (m_head s) < DEBUG_QUEUE_SIZE" and suc: "unat (m_head s + 1) = Suc (unat (m_head s))"
    using u8_bound [of "m_head s"] by (simp_all add: DEBUG_QUEUE_SIZE_def unat_succ_u8)
  from ok have "alloc_inv (unat (m_head s)) s"
    by (simp add: reg_ok_alloc_inv)
  from alloc_inv_set_unknown [OF this True room]
  have "alloc_inv (unat (m_head (ad_set_debug_field k v s))) (ad_set_debug_field k v s)"
    by (simp add: set_head True suc)
  moreover have "m_hash_lookup (ad_set_debug_field k v s) ANT_DEBUG_FIELD_INVALID
                   = ANT_DEBUG_FIELD_INVALID"
    using ok k by (simp add: set_unknown True reg_ok_def)
  ultimately show ?thesis
    by (simp add: reg_ok_alloc_inv)
next
  case False
  have "reg_ok (ad_set_debug_field k v s) = reg_ok s"
    by (rule reg_ok_cong) (simp_all add: set_known False)
  with ok show ?thesis
    by simp
qed

lemma reg_ok_increment:
  "reg_ok s \<Longrightarrow> k \<noteq> ANT_DEBUG_FIELD_INVALID \<Longrightarrow> reg_ok (ad_increment_debug_field k s)"
  by (simp add: ad_increment_debug_field_def reg_ok_set split: option.split)

lemma alloc_inv_increment:
  assumes "alloc_inv n s"
    and "n + unat (m_head (ad_increment_debug_field k s) - m_head s) \<le> DEBUG_QUEUE_SIZE"
  shows "alloc_inv (n + unat (m_head (ad_increment_debug_field k s) - m_head s))
           (ad_increment_debug_field k s)"
proof (cases "ad_get_debug_field k s")
  case None
  with assms(1) show ?thesis
    by (simp add: ad_increment_debug_field_def)
next
  case (Some v)
  with assms alloc_inv_set [of n s k "v + 1"] show ?thesis
    by (simp add: ad_increment_debug_field_def)
qed

subsection \<open>The filter-add loop body\<close>

lemma body_skip: "filter_add_body ANT_DEBUG_FIELD_INVALID s = s"
  by (simp add: filter_add_body_def)

lemma body_known:
  "b \<noteq> ANT_DEBUG_FIELD_INVALID \<Longrightarrow> m_hash_lookup s b \<noteq> ANT_DEBUG_FIELD_INVALID \<Longrightarrow>
   filter_add_body b s =
     s\<lparr> m_debug_queue := (m_debug_queue s)
          (m_hash_lookup s b := (m_debug_queue s (m_hash_lookup s b))\<lparr> output := True \<rparr>) \<rparr>"
  by (simp add: filter_add_body_def Let_def)

lemma body_unknown:
  "b \<noteq> ANT_DEBUG_FIELD_INVALID \<Longrightarrow> m_hash_lookup s b = ANT_DEBUG_FIELD_INVALID \<Longrightarrow>
   filter_add_body b s =
     (ad_set_debug_field b 0xFFFF s)
       \<lparr> m_debug_queue := (m_debug_queue (ad_set_debug_field b 0xFFFF s))
            (m_head s := (m_debug_queue s (m_head s))
               \<lparr> index := b, value := 0xFFFF, output := True \<rparr>) \<rparr>"
  by (simp add: filter_add_body_def Let_def set_unknown)

lemma body_cases:
  obtains (skip) "b = ANT_DEBUG_FIELD_INVALID" "filter_add_body b s = s"
  | (known) "b \<noteq> ANT_DEBUG_FIELD_INVALID" "m_hash_lookup s b \<noteq> ANT_DEBUG_FIELD_INVALID"
      "filter_add_body b s =
         s\<lparr> m_debug_queue := (m_debug_queue s)
            (m_hash_lookup s b := (m_debug_queue s (m_hash_lookup s b))\<lparr> output := True \<rparr>) \<rparr>"
  | (unknown) "b \<noteq> ANT_DEBUG_FIELD_INVALID" "m_hash_lookup s b = ANT_DEBUG_FIELD_INVALID"
      "filter_add_body b s =
         s\<lparr> m_hash_lookup := (m_hash_lookup s)(b := m_head s),
            m_debug_queue := (m_debug_queue s)
              (m_head s := (m_debug_queue s (m_head s))
                 \<lparr> index := b, value := 0xFFFF, output := True \<rparr>),
            m_head := m_head s + 1,
            m_queue_size := m_queue_size s + 1 \<rparr>"
  using body_skip [of s] body_known [of b s] body_unknown [of b s]
  by (cases "b = ANT_DEBUG_FIELD_INVALID"; cases "m_hash_lookup s b = ANT_DEBUG_FIELD_INVALID")
    (simp_all add: set_unknown)

lemma body_head:
  "m_head (filter_add_body b s) =
     (if b \<noteq> ANT_DEBUG_FIELD_INVALID \<and> m_hash_lookup s b = ANT_DEBUG_FIELD_INVALID
      then m_head s + 1 else m_head s)"
  by (cases b s rule: body_cases) simp_all

lemma body_allocs:
  "unat (m_head (filter_add_body b s) - m_head s) =
     (if b \<noteq> ANT_DEBUG_FIELD_INVALID \<and> m_hash_lookup s b = ANT_DEBUG_FIELD_INVALID
      then 1 else 0)"
  by (simp add: body_head)

lemma body_frame:
  "m_selective_debug (filter_add_body b s) = m_selective_debug s"
  "m_current_index_debug_channel (filter_add_body b s) = m_current_index_debug_channel s"
  "m_tx_buffer (filter_add_body b s) = m_tx_buffer s"
  "m_fast_debug_byte (filter_add_body b s) = m_fast_debug_byte s"
  by (cases b s rule: body_cases; simp)+

lemma alloc_inv_body:
  assumes "alloc_inv n s"
    and "n + unat (m_head (filter_add_body b s) - m_head s) \<le> DEBUG_QUEUE_SIZE"
  shows "alloc_inv (n + unat (m_head (filter_add_body b s) - m_head s)) (filter_add_body b s)"
proof (cases b s rule: body_cases)
  case skip
  with assms(1) show ?thesis
    by simp
next
  case known
  have "alloc_inv n (filter_add_body b s) = alloc_inv n s"
    by (rule alloc_inv_cong) (simp_all add: known(3))
  with assms(1) known(1,2) show ?thesis
    by (simp add: body_allocs)
next
  case unknown
  from assms(2) unknown(1,2) have room: "n < DEBUG_QUEUE_SIZE"
    by (simp add: body_allocs)
  have "alloc_inv (Suc n) (filter_add_body b s)
          = alloc_inv (Suc n) (ad_set_debug_field b 0xFFFF s)"
    by (rule alloc_inv_cong) (simp_all add: unknown(3) set_unknown [OF unknown(2)])
  with alloc_inv_set_unknown [OF assms(1) unknown(2) room] unknown(1,2) show ?thesis
    by (simp add: body_allocs)
qed

lemma reg_ok_body:
  assumes ok: "reg_ok s"
  shows "reg_ok (filter_add_body b s)"
proof (cases b s rule: body_cases)
  case skip
  with ok show ?thesis
    by simp
next
  case known
  have "reg_ok (filter_add_body b s) = reg_ok s"
    by (rule reg_ok_cong) (simp_all add: known(3))
  with ok show ?thesis
    by simp
next
  case unknown
  have "reg_ok (filter_add_body b s) = reg_ok (ad_set_debug_field b 0xFFFF s)"
    by (rule reg_ok_cong) (simp_all add: unknown(3) set_unknown [OF unknown(2)])
  with reg_ok_set [OF ok unknown(1)] show ?thesis
    by simp
qed

lemma body_lookup_known:
  "m_hash_lookup s k \<noteq> ANT_DEBUG_FIELD_INVALID \<Longrightarrow>
   m_hash_lookup (filter_add_body b s) k = m_hash_lookup s k"
  by (cases b s rule: body_cases) auto

lemma body_lookup_other:
  "k \<noteq> b \<Longrightarrow> m_hash_lookup (filter_add_body b s) k = m_hash_lookup s k"
  by (cases b s rule: body_cases) auto

lemma body_output_mono:
  "output (m_debug_queue s i) \<Longrightarrow> output (m_debug_queue (filter_add_body b s) i)"
  by (cases b s rule: body_cases) auto

lemma body_output_new:
  "output (m_debug_queue (filter_add_body b s) i) \<Longrightarrow>
   output (m_debug_queue s i) \<or>
   (b \<noteq> ANT_DEBUG_FIELD_INVALID \<and> i = m_hash_lookup (filter_add_body b s) b)"
  by (cases b s rule: body_cases) (auto split: if_splits)

lemma body_named:
  assumes ok: "reg_ok s" and b: "b \<noteq> ANT_DEBUG_FIELD_INVALID"
  shows "m_hash_lookup (filter_add_body b s) b \<noteq> ANT_DEBUG_FIELD_INVALID \<and>
         output (m_debug_queue (filter_add_body b s) (m_hash_lookup (filter_add_body b s) b))"
proof (cases b s rule: body_cases)
  case skip
  with b show ?thesis
    by simp
next
  case known
  then show ?thesis
    by simp
next
  case unknown
  from reg_ok_free_slot [OF ok unknown(1,2)] show ?thesis
    by (simp add: unknown(3) ANT_DEBUG_FIELD_INVALID_def)
qed

lemma body_value_known:
  assumes ok: "reg_ok s" and k: "m_hash_lookup s k \<noteq> ANT_DEBUG_FIELD_INVALID"
  shows "value (m_debug_queue (filter_add_body b s) (m_hash_lookup s k))
           = value (m_debug_queue s (m_hash_lookup s k))"
proof (cases b s rule: body_cases)
  case unknown
  from ok k have "m_hash_lookup s k < m_head s"
    by (simp add: reg_ok_def)
  then have "m_hash_lookup s k \<noteq> m_head s"
    by auto
  then show ?thesis
    by (simp add: unknown(3))
qed auto

lemma body_value_new:
  "b \<noteq> ANT_DEBUG_FIELD_INVALID \<Longrightarrow> m_hash_lookup s b = ANT_DEBUG_FIELD_INVALID \<Longrightarrow>
   value (m_debug_queue (filter_add_body b s) (m_hash_lookup (filter_add_body b s) b)) = 0xFFFF"
  by (cases b s rule: body_cases) auto

text \<open>A key that is known and included already: the loop body changes nothing.\<close>

lemma body_idem:
  assumes "m_hash_lookup s b \<noteq> ANT_DEBUG_FIELD_INVALID"
    and "output (m_debug_queue s (m_hash_lookup s b))"
  shows "filter_add_body b s = s"
proof (cases b s rule: body_cases)
  case known
  have "(m_debug_queue s)
          (m_hash_lookup s b := (m_debug_queue s (m_hash_lookup s b))\<lparr> output := True \<rparr>)
        = m_debug_queue s"
    using assms(2) by (simp add: fun_upd_idem_iff)
  then show ?thesis
    by (simp add: known(3))
qed (use assms in auto)

subsection \<open>The decoder's loops\<close>

lemma filter_add_loop_fold:
  "filter_add_loop payload 3 s = fold filter_add_body (map payload [3..<8]) s"
  by (simp add: filter_add_loop_unroll upt_rec)

lemma filter_clear_loop_eq:
  "filter_clear_loop idx s =
     s\<lparr> m_debug_queue := (\<lambda>i. if idx \<le> i \<and> i < m_queue_size s
                               then (m_debug_queue s i)\<lparr> output := False \<rparr>
                               else m_debug_queue s i) \<rparr>"
proof (induction idx s rule: filter_clear_loop.induct)
  case (1 idx s)
  show ?case
  proof (cases "idx < m_queue_size s")
    case True
    then have "unat idx < unat (m_queue_size s)"
      by (simp add: word_less_nat_alt)
    with u8_bound [of "m_queue_size s"] have suc: "unat (idx + 1) = Suc (unat idx)"
      by (simp add: unat_succ_u8)
    have nxt: "(idx + 1 \<le> i) = (idx \<le> i \<and> i \<noteq> idx)" for i
      by (auto simp: word_le_nat_alt suc word_unat_eq_iff)
    show ?thesis
      apply (subst filter_clear_loop.simps)
      apply (simp only: True if_True)
      apply (subst "1.IH" [OF True])
      apply (rule ad_state.equality; simp add: fun_eq_iff nxt True)
      done
  next
    case False
    then have "\<not> (idx \<le> i \<and> i < m_queue_size s)" for i
      by auto
    then have "(\<lambda>i. if idx \<le> i \<and> i < m_queue_size s
                 then (m_debug_queue s i)\<lparr> output := False \<rparr>
                 else m_debug_queue s i) = m_debug_queue s"
      by (auto simp: fun_eq_iff)
    then show ?thesis
      using False by (subst filter_clear_loop.simps) simp
  qed
qed

lemma decode_add:
  "payload 1 = ANT_DEBUG_FILTER_COMMAND \<Longrightarrow> payload 2 = ANT_DEBUG_SUB_COMMAND_FILTER_ADD \<Longrightarrow>
   ad_decode_debug_command payload s =
     fold filter_add_body (map payload [3..<8]) (s\<lparr> m_selective_debug := True \<rparr>)"
  by (simp add: ad_decode_debug_command_def filter_add_loop_fold)

lemma decode_clear:
  "payload 1 = ANT_DEBUG_FILTER_COMMAND \<Longrightarrow> payload 2 = ANT_DEBUG_SUB_COMMAND_FILTER_CLEAR \<Longrightarrow>
   ad_decode_debug_command payload s =
     s\<lparr> m_selective_debug := False,
        m_debug_queue := (\<lambda>i. if i < m_queue_size s
                               then (m_debug_queue s i)\<lparr> output := False \<rparr>
                               else m_debug_queue s i) \<rparr>"
  by (rule ad_state.equality)
    (simp_all add: ad_decode_debug_command_def filter_clear_loop_eq fun_eq_iff
      ANT_DEBUG_SUB_COMMAND_FILTER_ADD_def ANT_DEBUG_SUB_COMMAND_FILTER_CLEAR_def)

lemma decode_cases:
  obtains (add) "payload 1 = ANT_DEBUG_FILTER_COMMAND"
      "payload 2 = ANT_DEBUG_SUB_COMMAND_FILTER_ADD"
  | (clear) "payload 1 = ANT_DEBUG_FILTER_COMMAND"
      "payload 2 = ANT_DEBUG_SUB_COMMAND_FILTER_CLEAR"
  | (other) "ad_decode_debug_command payload s = s"
  by (cases "payload 1 = ANT_DEBUG_FILTER_COMMAND";
      cases "payload 2 = ANT_DEBUG_SUB_COMMAND_FILTER_ADD";
      cases "payload 2 = ANT_DEBUG_SUB_COMMAND_FILTER_CLEAR")
    (simp_all add: ad_decode_debug_command_def)

subsection \<open>The filter-add loop as a whole\<close>

lemma fold_body_frame:
  "m_selective_debug (fold filter_add_body bs s) = m_selective_debug s"
  "m_current_index_debug_channel (fold filter_add_body bs s) = m_current_index_debug_channel s"
  "m_tx_buffer (fold filter_add_body bs s) = m_tx_buffer s"
  "m_fast_debug_byte (fold filter_add_body bs s) = m_fast_debug_byte s"
  by (induction bs arbitrary: s; simp add: body_frame)+

lemma reg_ok_fold_body:
  "reg_ok s \<Longrightarrow> reg_ok (fold filter_add_body bs s)"
  by (induction bs arbitrary: s) (simp_all add: reg_ok_body)

lemma fold_body_lookup_known:
  "m_hash_lookup s k \<noteq> ANT_DEBUG_FIELD_INVALID \<Longrightarrow>
   m_hash_lookup (fold filter_add_body bs s) k = m_hash_lookup s k"
  by (induction bs arbitrary: s) (simp_all add: body_lookup_known)

lemma fold_body_lookup_other:
  "k \<notin> set bs \<Longrightarrow> m_hash_lookup (fold filter_add_body bs s) k = m_hash_lookup s k"
  by (induction bs arbitrary: s) (simp_all add: body_lookup_other)

lemma fold_body_output_mono:
  "output (m_debug_queue s i) \<Longrightarrow> output (m_debug_queue (fold filter_add_body bs s) i)"
  by (induction bs arbitrary: s) (simp_all add: body_output_mono)

lemma fold_body_value_known:
  "reg_ok s \<Longrightarrow> m_hash_lookup s k \<noteq> ANT_DEBUG_FIELD_INVALID \<Longrightarrow>
   value (m_debug_queue (fold filter_add_body bs s) (m_hash_lookup s k))
     = value (m_debug_queue s (m_hash_lookup s k))"
proof (induction bs arbitrary: s)
  case Nil
  show ?case by simp
next
  case (Cons b bs)
  from Cons.IH [of "filter_add_body b s"] Cons.prems show ?case
    by (simp add: reg_ok_body body_lookup_known body_value_known)
qed

lemma fold_body_named:
  assumes "reg_ok s" and "b \<in> set bs" and "b \<noteq> ANT_DEBUG_FIELD_INVALID"
  shows "m_hash_lookup (fold filter_add_body bs s) b \<noteq> ANT_DEBUG_FIELD_INVALID \<and>
         output (m_debug_queue (fold filter_add_body bs s)
                   (m_hash_lookup (fold filter_add_body bs s) b))"
  using assms
proof (induction bs arbitrary: s)
  case Nil
  then show ?case by simp
next
  case (Cons a bs)
  show ?case
  proof (cases "b = a")
    case True
    from body_named [OF Cons.prems(1) Cons.prems(3)] True
    have known: "m_hash_lookup (filter_add_body a s) b \<noteq> ANT_DEBUG_FIELD_INVALID"
      and out: "output (m_debug_queue (filter_add_body a s) (m_hash_lookup (filter_add_body a s) b))"
      by simp_all
    from fold_body_lookup_known [OF known, of bs] fold_body_output_mono [OF out, of bs] known
    show ?thesis
      by simp
  next
    case False
    with Cons.prems have "b \<in> set bs"
      by simp
    from Cons.IH [OF reg_ok_body [OF Cons.prems(1)] this Cons.prems(3)] show ?thesis
      by simp
  qed
qed

lemma fold_body_value_new:
  assumes "reg_ok s" and "b \<in> set bs" and "b \<noteq> ANT_DEBUG_FIELD_INVALID"
    and "m_hash_lookup s b = ANT_DEBUG_FIELD_INVALID"
  shows "value (m_debug_queue (fold filter_add_body bs s)
                  (m_hash_lookup (fold filter_add_body bs s) b)) = 0xFFFF"
  using assms
proof (induction bs arbitrary: s)
  case Nil
  then show ?case by simp
next
  case (Cons a bs)
  let ?s1 = "filter_add_body a s"
  note ok1 = reg_ok_body [OF Cons.prems(1), of a]
  show ?case
  proof (cases "b = a")
    case True
    from body_named [OF Cons.prems(1) Cons.prems(3)] True
    have known: "m_hash_lookup ?s1 b \<noteq> ANT_DEBUG_FIELD_INVALID"
      by simp
    from body_value_new [OF Cons.prems(3,4)] True
    have "value (m_debug_queue ?s1 (m_hash_lookup ?s1 b)) = 0xFFFF"
      by simp
    with fold_body_value_known [OF ok1 known, of bs] fold_body_lookup_known [OF known, of bs]
    show ?thesis
      by simp
  next
    case False
    with Cons.prems have "b \<in> set bs" and "m_hash_lookup ?s1 b = ANT_DEBUG_FIELD_INVALID"
      by (simp_all add: body_lookup_other)
    from Cons.IH [OF ok1 this(1) Cons.prems(3) this(2)] show ?thesis
      by simp
  qed
qed

lemma fold_body_output_new:
  "reg_ok s \<Longrightarrow> output (m_debug_queue (fold filter_add_body bs s) i) \<Longrightarrow>
   output (m_debug_queue s i) \<or>
   (\<exists>b \<in> set bs. b \<noteq> ANT_DEBUG_FIELD_INVALID \<and> i = m_hash_lookup (fold filter_add_body bs s) b)"
proof (induction bs arbitrary: s)
  case Nil
  then show ?case by simp
next
  case (Cons a bs)
  let ?s1 = "filter_add_body a s"
  note ok1 = reg_ok_body [OF Cons.prems(1), of a]
  from Cons.IH [OF ok1] Cons.prems(2)
  consider "output (m_debug_queue ?s1 i)"
    | b where "b \<in> set bs" "b \<noteq> ANT_DEBUG_FIELD_INVALID"
        "i = m_hash_lookup (fold filter_add_body bs ?s1) b"
    by auto
  then show ?case
  proof cases
    case 1
    from body_output_new [OF 1] show ?thesis
    proof
      assume "output (m_debug_queue s i)"
      then show ?thesis by simp
    next
      assume new: "a \<noteq> ANT_DEBUG_FIELD_INVALID \<and> i = m_hash_lookup ?s1 a"
      with body_named [OF Cons.prems(1), of a]
      have "m_hash_lookup ?s1 a \<noteq> ANT_DEBUG_FIELD_INVALID"
        by simp
      from fold_body_lookup_known [OF this, of bs] new show ?thesis
        by auto
    qed
  next
    case 2
    then show ?thesis
      by auto
  qed
qed

subsection \<open>The lookup invariant along a run\<close>

lemma fold_body_head_le:
  "unat (m_head (fold filter_add_body bs s) - m_head s) \<le> length bs"
proof (induction bs arbitrary: s)
  case Nil
  show ?case by simp
next
  case (Cons b bs)
  let ?s1 = "filter_add_body b s"
  have "m_head (fold filter_add_body bs ?s1) - m_head s
          = (m_head (fold filter_add_body bs ?s1) - m_head ?s1) + (m_head ?s1 - m_head s)"
    by simp
  then have "unat (m_head (fold filter_add_body bs ?s1) - m_head s)
          \<le> unat (m_head (fold filter_add_body bs ?s1) - m_head ?s1) + unat (m_head ?s1 - m_head s)"
    by (simp only: unat_word_ariths) simp
  also have "\<dots> \<le> length bs + 1"
    using Cons.IH [of ?s1] by (simp add: body_allocs add_mono)
  finally show ?case
    by simp
qed

lemma alloc_inv_fold_body:
  assumes "alloc_inv n s" and "length bs < 256"
    and "n + unat (m_head (fold filter_add_body bs s) - m_head s) \<le> DEBUG_QUEUE_SIZE"
  shows "alloc_inv (n + unat (m_head (fold filter_add_body bs s) - m_head s))
           (fold filter_add_body bs s)"
  using assms
proof (induction bs arbitrary: s n)
  case Nil
  then show ?case by simp
next
  case (Cons b bs)
  let ?s1 = "filter_add_body b s"
  let ?a = "unat (m_head ?s1 - m_head s)"
  let ?r = "unat (m_head (fold filter_add_body bs ?s1) - m_head ?s1)"
  have a: "?a \<le> 1"
    by (simp add: body_allocs)
  have r: "?r \<le> length bs"
    by (rule fold_body_head_le)
  have "m_head (fold filter_add_body bs ?s1) - m_head s
          = (m_head (fold filter_add_body bs ?s1) - m_head ?s1) + (m_head ?s1 - m_head s)"
    by simp
  moreover have "?r + ?a < 2 ^ LENGTH(8)"
    using a r Cons.prems(2) by simp
  ultimately have sum: "unat (m_head (fold filter_add_body bs ?s1) - m_head s) = ?r + ?a"
    by (simp only: unat_add_lem [THEN iffD1])
  from Cons.prems(3) sum have le: "n + ?a \<le> DEBUG_QUEUE_SIZE" "(n + ?a) + ?r \<le> DEBUG_QUEUE_SIZE"
    by simp_all
  from alloc_inv_body [OF Cons.prems(1) le(1)] have "alloc_inv (n + ?a) ?s1" .
  from Cons.IH [OF this _ le(2)] Cons.prems(2) sum show ?case
    by (simp add: add.assoc add.commute)
qed

lemma alloc_inv_decode:
  assumes inv: "alloc_inv n s"
    and le: "n + unat (m_head (ad_decode_debug_command payload s) - m_head s) \<le> DEBUG_QUEUE_SIZE"
  shows "alloc_inv (n + unat (m_head (ad_decode_debug_command payload s) - m_head s))
           (ad_decode_debug_command payload s)"
proof (cases rule: decode_cases [where payload = payload and s = s])
  case add
  let ?s0 = "s\<lparr> m_selective_debug := True \<rparr>"
  have "alloc_inv n ?s0 = alloc_inv n s"
    by (rule alloc_inv_cong) simp_all
  with inv have "alloc_inv n ?s0"
    by simp
  from alloc_inv_fold_body [OF this, of "map payload [3..<8]"] le show ?thesis
    by (simp add: decode_add [OF add])
next
  case clear
  have "alloc_inv n (ad_decode_debug_command payload s) = alloc_inv n s"
    by (rule alloc_inv_cong) (simp_all add: decode_clear [OF clear])
  with inv show ?thesis
    by (simp add: decode_clear [OF clear])
next
  case other
  with inv show ?thesis
    by simp
qed

lemma alloc_inv_exec_op:
  assumes "alloc_inv n s"
    and "n + unat (m_head (exec_op x s) - m_head s) \<le> DEBUG_QUEUE_SIZE"
  shows "alloc_inv (n + unat (m_head (exec_op x s) - m_head s)) (exec_op x s)"
  using assms
  by (cases x) (simp_all add: alloc_inv_set alloc_inv_increment alloc_inv_decode)

lemma alloc_inv_run_ops:
  assumes "alloc_inv n s" and "n + run_allocs ops s \<le> DEBUG_QUEUE_SIZE"
  shows "alloc_inv (n + run_allocs ops s) (run_ops ops s)"
  using assms
proof (induction ops arbitrary: n s)
  case Nil
  then show ?case by simp
next
  case (Cons x xs)
  let ?a = "unat (m_head (exec_op x s) - m_head s)"
  from Cons.prems(2) have le: "n + ?a \<le> DEBUG_QUEUE_SIZE"
    "(n + ?a) + run_allocs xs (exec_op x s) \<le> DEBUG_QUEUE_SIZE"
    by simp_all
  from alloc_inv_exec_op [OF Cons.prems(1) le(1)] have "alloc_inv (n + ?a) (exec_op x s)" .
  from Cons.IH [OF this le(2)] show ?case
    by (simp add: add.assoc)
qed

text \<open>
  Claim C7: after \<open>ad_init\<close> and any sequence of set, increment and decode operations
  that allocates no more slots than the registry has (\<open>DEBUG_QUEUE_SIZE\<close>, 256), the key
  of every occupied slot looks up to that slot, and every lookup entry other than the
  sentinel leads to a slot that holds the key.
\<close>

theorem lookup_invariant_within_capacity:
  assumes "run_allocs ops (ad_init s0) \<le> DEBUG_QUEUE_SIZE"
  shows "lookup_invariant (run_ops ops (ad_init s0))"
proof -
  from alloc_inv_run_ops [OF alloc_inv_init, of ops s0] assms
  have "alloc_inv (run_allocs ops (ad_init s0)) (run_ops ops (ad_init s0))"
    by simp
  then show ?thesis
    by (rule alloc_inv_lookup_invariant)
qed

theorem lookup_invariant_within_capacity_witness:
  "run_allocs [Set 5 100, Increment 5, Decode (payload_of [0xF9, 3, 1, 9, 5, 255, 255, 255]),
               Set 255 1] (ad_init power_on) \<le> DEBUG_QUEUE_SIZE \<and>
   lookup_invariant
     (run_ops [Set 5 100, Increment 5, Decode (payload_of [0xF9, 3, 1, 9, 5, 255, 255, 255]),
               Set 255 1] (ad_init power_on))"
proof -
  have "run_allocs [Set 5 100, Increment 5,
           Decode (payload_of [0xF9, 3, 1, 9, 5, 255, 255, 255]), Set 255 1] (ad_init power_on) = 3"
    by (simp add: eval_defs const_defs)
  then have le: "run_allocs [Set 5 100, Increment 5,
           Decode (payload_of [0xF9, 3, 1, 9, 5, 255, 255, 255]), Set 255 1] (ad_init power_on)
         \<le> DEBUG_QUEUE_SIZE"
    by (simp add: DEBUG_QUEUE_SIZE_def)
  from lookup_invariant_within_capacity [OF le] le show ?thesis
    by simp
qed

subsection \<open>Decoding a filter-add command\<close>

lemma unat_255: "(unat (x :: u8) = 255) = (x = 255)"
  by (simp add: word_unat_eq_iff)

lemma reg_ok_size: "reg_ok s \<Longrightarrow> m_queue_size s = m_head s"
  by (simp add: reg_ok_def)

lemma fold_body_idem:
  assumes "\<And>b. b \<in> set bs \<Longrightarrow> filter_add_body b s = s"
  shows "fold filter_add_body bs s = s"
  using assms by (induction bs) simp_all

lemma fold_body_size:
  assumes "reg_ok s"
  shows "unat (m_head (fold filter_add_body bs s)) =
           unat (m_head s) +
           card {b \<in> set bs. b \<noteq> ANT_DEBUG_FIELD_INVALID \<and>
                              m_hash_lookup s b = ANT_DEBUG_FIELD_INVALID}"
  using assms
proof (induction bs arbitrary: s)
  case Nil
  show ?case by simp
next
  case (Cons a bs)
  let ?s1 = "filter_add_body a s"
  let ?new = "\<lambda>s b. b \<noteq> ANT_DEBUG_FIELD_INVALID \<and> m_hash_lookup s b = ANT_DEBUG_FIELD_INVALID"
  note IH = Cons.IH [OF reg_ok_body [OF Cons.prems, of a]]
  show ?case
  proof (cases "?new s a")
    case True
    from reg_ok_free_slot [OF Cons.prems, of a] True have "unat (m_head s) \<noteq> 255"
      by (simp add: unat_255)
    then have head: "unat (m_head ?s1) = Suc (unat (m_head s))"
      using True by (simp add: body_head unat_succ_u8)
    from body_named [OF Cons.prems, of a] True
    have known: "m_hash_lookup ?s1 a \<noteq> ANT_DEBUG_FIELD_INVALID"
      by simp
    have "?new ?s1 b = (?new s b \<and> b \<noteq> a)" for b
      using known by (cases "b = a") (simp_all add: body_lookup_other)
    then have rest: "{b \<in> set bs. ?new ?s1 b} = {b \<in> set bs. ?new s b} - {a}"
      by auto
    have all: "{b \<in> set (a # bs). ?new s b} = insert a ({b \<in> set bs. ?new s b} - {a})"
      using True by auto
    have "card {b \<in> set (a # bs). ?new s b} = Suc (card {b \<in> set bs. ?new ?s1 b})"
      unfolding all rest by (simp add: card.insert_remove)
    with IH head show ?thesis
      by simp
  next
    case False
    then have head: "m_head ?s1 = m_head s"
      by (auto simp: body_head)
    have look: "m_hash_lookup ?s1 = m_hash_lookup s"
      using False by (cases a s rule: body_cases) auto
    have "{b \<in> set (a # bs). ?new s b} = {b \<in> set bs. ?new ?s1 b}"
      using False by (auto simp: look)
    with IH head show ?thesis
      by simp
  qed
qed

text \<open>
  Claim C5, for a registry of the key domain (\<open>reg_ok\<close>): decoding a filter-add command
  runs the loop body on the five argument bytes in the order of their offsets 3..7, and
  \<^item> selective mode is on afterwards;
  \<^item> every argument byte other than 255 is a known key afterwards, its slot holds the key
    and has the \<open>output\<close> flag set, and the value of the slot is the placeholder \<open>0xFFFF\<close>
    if the key was unknown before, and the value it had otherwise;
  \<^item> the byte 255 is skipped: key 255 has no lookup entry afterwards, no key outside the
    message gets one, and known keys keep their slots;
  \<^item> duplicates are idempotent: the registry grows by the number of distinct unknown keys
    of the message, and decoding the same command again changes nothing.
\<close>

theorem filter_add_decoded:
  assumes ok: "reg_ok s"
    and cmd: "payload 1 = ANT_DEBUG_FILTER_COMMAND"
    and sub: "payload 2 = ANT_DEBUG_SUB_COMMAND_FILTER_ADD"
  shows "(let s' = ad_decode_debug_command payload s in
          s' = fold filter_add_body (map payload [3..<8]) (s\<lparr> m_selective_debug := True \<rparr>) \<and>
          m_selective_debug s' \<and>
          reg_ok s' \<and>
          m_hash_lookup s' ANT_DEBUG_FIELD_INVALID = ANT_DEBUG_FIELD_INVALID \<and>
          (\<forall>n \<in> {3..<8}. payload n \<noteq> ANT_DEBUG_FIELD_INVALID \<longrightarrow>
             m_hash_lookup s' (payload n) \<noteq> ANT_DEBUG_FIELD_INVALID \<and>
             index (m_debug_queue s' (m_hash_lookup s' (payload n))) = payload n \<and>
             output (m_debug_queue s' (m_hash_lookup s' (payload n))) \<and>
             value (m_debug_queue s' (m_hash_lookup s' (payload n))) =
               (if m_hash_lookup s (payload n) = ANT_DEBUG_FIELD_INVALID then 0xFFFF
                else value (m_debug_queue s (m_hash_lookup s (payload n))))) \<and>
          (\<forall>k. m_hash_lookup s k \<noteq> ANT_DEBUG_FIELD_INVALID \<longrightarrow>
             m_hash_lookup s' k = m_hash_lookup s k) \<and>
          (\<forall>k. k \<notin> payload ` {3..<8} \<longrightarrow> m_hash_lookup s' k = m_hash_lookup s k) \<and>
          unat (m_queue_size s') =
            unat (m_queue_size s) +
            card {b \<in> payload ` {3..<8}. b \<noteq> ANT_DEBUG_FIELD_INVALID \<and>
                                         m_hash_lookup s b = ANT_DEBUG_FIELD_INVALID} \<and>
          ad_decode_debug_command payload s' = s')"
proof -
  let ?bs = "map payload [3..<8]"
  let ?s0 = "s\<lparr> m_selective_debug := True \<rparr>"
  let ?s' = "fold filter_add_body ?bs ?s0"
  have dec: "ad_decode_debug_command payload s = ?s'"
    by (rule decode_add [OF cmd sub])
  have set_bs: "set ?bs = payload ` {3..<8}"
    by (simp only: set_map set_upt)
  have "reg_ok ?s0 = reg_ok s"
    by (rule reg_ok_cong) simp_all
  with ok have ok0: "reg_ok ?s0"
    by simp
  have ok': "reg_ok ?s'"
    by (rule reg_ok_fold_body [OF ok0])
  have sel: "m_selective_debug ?s'"
    by (simp only: fold_body_frame) simp
  have named: "m_hash_lookup ?s' b \<noteq> ANT_DEBUG_FIELD_INVALID \<and>
               index (m_debug_queue ?s' (m_hash_lookup ?s' b)) = b \<and>
               output (m_debug_queue ?s' (m_hash_lookup ?s' b)) \<and>
               value (m_debug_queue ?s' (m_hash_lookup ?s' b)) =
                 (if m_hash_lookup s b = ANT_DEBUG_FIELD_INVALID then 0xFFFF
                  else value (m_debug_queue s (m_hash_lookup s b)))"
    if b: "b \<in> set ?bs" "b \<noteq> ANT_DEBUG_FIELD_INVALID" for b
  proof -
    from fold_body_named [OF ok0 b]
    have known: "m_hash_lookup ?s' b \<noteq> ANT_DEBUG_FIELD_INVALID"
      and out: "output (m_debug_queue ?s' (m_hash_lookup ?s' b))"
      by simp_all
    from ok' known have idx: "index (m_debug_queue ?s' (m_hash_lookup ?s' b)) = b"
      by (simp add: reg_ok_def)
    have val: "value (m_debug_queue ?s' (m_hash_lookup ?s' b)) =
                 (if m_hash_lookup s b = ANT_DEBUG_FIELD_INVALID then 0xFFFF
                  else value (m_debug_queue s (m_hash_lookup s b)))"
    proof (cases "m_hash_lookup s b = ANT_DEBUG_FIELD_INVALID")
      case True
      with fold_body_value_new [OF ok0 b] show ?thesis
        by simp
    next
      case False
      then have k0: "m_hash_lookup ?s0 b \<noteq> ANT_DEBUG_FIELD_INVALID"
        by simp
      from fold_body_value_known [OF ok0 k0, of ?bs] fold_body_lookup_known [OF k0, of ?bs] False
      show ?thesis
        by simp
    qed
    from known idx out val show ?thesis
      by blast
  qed
  have keep: "m_hash_lookup ?s' k = m_hash_lookup s k"
    if "m_hash_lookup s k \<noteq> ANT_DEBUG_FIELD_INVALID" for k
    using fold_body_lookup_known [of ?s0 k ?bs] that by simp
  have other: "m_hash_lookup ?s' k = m_hash_lookup s k" if "k \<notin> payload ` {3..<8}" for k
  proof -
    from that have "k \<notin> set ?bs"
      unfolding set_bs .
    then have "m_hash_lookup ?s' k = m_hash_lookup ?s0 k"
      by (rule fold_body_lookup_other)
    then show ?thesis
      by simp
  qed
  have size: "unat (m_queue_size ?s') =
            unat (m_queue_size s) +
            card {b \<in> payload ` {3..<8}. b \<noteq> ANT_DEBUG_FIELD_INVALID \<and>
                                         m_hash_lookup s b = ANT_DEBUG_FIELD_INVALID}"
  proof -
    have "unat (m_queue_size ?s') = unat (m_head ?s')"
      by (simp only: reg_ok_size [OF ok'])
    also have "\<dots> = unat (m_head ?s0) +
           card {b \<in> set ?bs. b \<noteq> ANT_DEBUG_FIELD_INVALID \<and>
                               m_hash_lookup ?s0 b = ANT_DEBUG_FIELD_INVALID}"
      by (rule fold_body_size [OF ok0])
    also have "\<dots> = unat (m_queue_size s) +
            card {b \<in> payload ` {3..<8}. b \<noteq> ANT_DEBUG_FIELD_INVALID \<and>
                                         m_hash_lookup s b = ANT_DEBUG_FIELD_INVALID}"
      unfolding set_bs by (simp add: reg_ok_size [OF ok])
    finally show ?thesis .
  qed
  have again: "ad_decode_debug_command payload ?s' = ?s'"
  proof -
    have "filter_add_body b ?s' = ?s'" if "b \<in> set ?bs" for b
    proof (cases "b = ANT_DEBUG_FIELD_INVALID")
      case True
      then show ?thesis
        by (simp add: body_skip)
    next
      case False
      from named [OF that False] show ?thesis
        by (intro body_idem) simp_all
    qed
    then have "fold filter_add_body ?bs ?s' = ?s'"
      by (rule fold_body_idem)
    moreover have "?s'\<lparr> m_selective_debug := True \<rparr> = ?s'"
      using sel by simp
    ultimately show ?thesis
      by (simp only: decode_add [OF cmd sub])
  qed
  from ok' have res: "m_hash_lookup ?s' ANT_DEBUG_FIELD_INVALID = ANT_DEBUG_FIELD_INVALID"
    by (simp add: reg_ok_def)
  have each: "\<forall>n \<in> {3..<8}. payload n \<noteq> ANT_DEBUG_FIELD_INVALID \<longrightarrow>
             m_hash_lookup ?s' (payload n) \<noteq> ANT_DEBUG_FIELD_INVALID \<and>
             index (m_debug_queue ?s' (m_hash_lookup ?s' (payload n))) = payload n \<and>
             output (m_debug_queue ?s' (m_hash_lookup ?s' (payload n))) \<and>
             value (m_debug_queue ?s' (m_hash_lookup ?s' (payload n))) =
               (if m_hash_lookup s (payload n) = ANT_DEBUG_FIELD_INVALID then 0xFFFF
                else value (m_debug_queue s (m_hash_lookup s (payload n))))"
  proof (intro ballI impI)
    fix n
    assume n: "n \<in> {3..<8}" and valid: "payload n \<noteq> ANT_DEBUG_FIELD_INVALID"
    from n have "payload n \<in> set ?bs"
      unfolding set_bs by (rule imageI)
    from named [OF this valid]
    show "m_hash_lookup ?s' (payload n) \<noteq> ANT_DEBUG_FIELD_INVALID \<and>
             index (m_debug_queue ?s' (m_hash_lookup ?s' (payload n))) = payload n \<and>
             output (m_debug_queue ?s' (m_hash_lookup ?s' (payload n))) \<and>
             value (m_debug_queue ?s' (m_hash_lookup ?s' (payload n))) =
               (if m_hash_lookup s (payload n) = ANT_DEBUG_FIELD_INVALID then 0xFFFF
                else value (m_debug_queue s (m_hash_lookup s (payload n))))" .
  qed
  from keep have keep': "\<forall>k. m_hash_lookup s k \<noteq> ANT_DEBUG_FIELD_INVALID \<longrightarrow>
             m_hash_lookup ?s' k = m_hash_lookup s k"
    by blast
  from other have other': "\<forall>k. k \<notin> payload ` {3..<8} \<longrightarrow> m_hash_lookup ?s' k = m_hash_lookup s k"
    by blast
  show ?thesis
    unfolding Let_def dec
    by (intro conjI refl sel ok' res each keep' other' size again)
qed


theorem filter_add_decoded_witness:
  "reg_ok (ad_set_debug_field 5 100 (ad_init power_on)) \<and>
   payload_of [0xF9, 3, 1, 9, 5, 9, 255, 7] 1 = ANT_DEBUG_FILTER_COMMAND \<and>
   payload_of [0xF9, 3, 1, 9, 5, 9, 255, 7] 2 = ANT_DEBUG_SUB_COMMAND_FILTER_ADD \<and>
   m_selective_debug
     (ad_decode_debug_command (payload_of [0xF9, 3, 1, 9, 5, 9, 255, 7])
        (ad_set_debug_field 5 100 (ad_init power_on))) \<and>
   reg_ok
     (ad_decode_debug_command (payload_of [0xF9, 3, 1, 9, 5, 9, 255, 7])
        (ad_set_debug_field 5 100 (ad_init power_on))) \<and>
   ad_decode_debug_command (payload_of [0xF9, 3, 1, 9, 5, 9, 255, 7])
     (ad_decode_debug_command (payload_of [0xF9, 3, 1, 9, 5, 9, 255, 7])
        (ad_set_debug_field 5 100 (ad_init power_on)))
   = ad_decode_debug_command (payload_of [0xF9, 3, 1, 9, 5, 9, 255, 7])
        (ad_set_debug_field 5 100 (ad_init power_on))"
proof -
  let ?s = "ad_set_debug_field 5 100 (ad_init power_on)"
  let ?p = "payload_of [0xF9, 3, 1, 9, 5, 9, 255, 7]"
  have ok: "reg_ok ?s"
    by (rule reg_ok_set [OF reg_ok_init]) (simp add: ANT_DEBUG_FIELD_INVALID_def)
  have cmd: "?p 1 = ANT_DEBUG_FILTER_COMMAND"
    and sub: "?p 2 = ANT_DEBUG_SUB_COMMAND_FILTER_ADD"
    by (simp_all add: payload_of_def const_defs)
  from filter_add_decoded [OF ok cmd sub, unfolded Let_def] ok cmd sub show ?thesis
    by (elim conjE) (intro conjI; assumption)
qed

subsection \<open>Setting distinct keys\<close>

lemma unat_of_nat_u8: "a < 256 \<Longrightarrow> unat (of_nat a :: u8) = a"
  by (simp add: unat_of_nat)

text \<open>
  A run of set calls on distinct unknown keys, from a state whose head stands at slot \<open>n\<close>
  and while the slot numbers stay below 256: the keys take the slots \<open>n\<close>, \<open>n + 1\<close>, ... in
  order, and nothing else changes.
\<close>

lemma run_set_fresh:
  assumes "length ks = length vs"
    and "m_head s = of_nat n"
    and "\<forall>k \<in> set ks. m_hash_lookup s k = ANT_DEBUG_FIELD_INVALID"
    and "distinct ks"
    and "n + length ks \<le> 256"
  shows "m_head (run_ops (map2 Set ks vs) s) = of_nat (n + length ks) \<and>
         m_queue_size (run_ops (map2 Set ks vs) s) = m_queue_size s + of_nat (length ks) \<and>
         (\<forall>i < length ks.
            m_hash_lookup (run_ops (map2 Set ks vs) s) (ks ! i) = of_nat (n + i) \<and>
            m_debug_queue (run_ops (map2 Set ks vs) s) (of_nat (n + i)) =
              (m_debug_queue s (of_nat (n + i)))\<lparr> index := ks ! i, value := vs ! i \<rparr>) \<and>
         (\<forall>j. unat j < n \<or> n + length ks \<le> unat j \<longrightarrow>
            m_debug_queue (run_ops (map2 Set ks vs) s) j = m_debug_queue s j) \<and>
         (\<forall>k. k \<notin> set ks \<longrightarrow>
            m_hash_lookup (run_ops (map2 Set ks vs) s) k = m_hash_lookup s k)"
  using assms
proof (induction ks vs arbitrary: s n rule: list_induct2)
  case Nil
  then show ?case by simp
next
  case (Cons k ks v vs)
  let ?s1 = "ad_set_debug_field k v s"
  let ?s' = "run_ops (map2 Set ks vs) ?s1"
  have n: "n < 256"
    using Cons.prems(4) by simp
  have unk: "m_hash_lookup s k = ANT_DEBUG_FIELD_INVALID"
    using Cons.prems(2) by simp
  note s1 = set_unknown [OF unk, of v]
  have head1: "m_head ?s1 = of_nat (Suc n)"
    by (simp add: s1 Cons.prems(1))
  have fresh1: "\<forall>k' \<in> set ks. m_hash_lookup ?s1 k' = ANT_DEBUG_FIELD_INVALID"
    using Cons.prems(2,3) by (auto simp: s1)
  have IH: "m_head ?s' = of_nat (Suc n + length ks) \<and>
         m_queue_size ?s' = m_queue_size ?s1 + of_nat (length ks) \<and>
         (\<forall>i < length ks.
            m_hash_lookup ?s' (ks ! i) = of_nat (Suc n + i) \<and>
            m_debug_queue ?s' (of_nat (Suc n + i)) =
              (m_debug_queue ?s1 (of_nat (Suc n + i)))\<lparr> index := ks ! i, value := vs ! i \<rparr>) \<and>
         (\<forall>j. unat j < Suc n \<or> Suc n + length ks \<le> unat j \<longrightarrow>
            m_debug_queue ?s' j = m_debug_queue ?s1 j) \<and>
         (\<forall>k. k \<notin> set ks \<longrightarrow> m_hash_lookup ?s' k = m_hash_lookup ?s1 k)"
    using Cons.prems(3,4) by (intro Cons.IH [OF head1 fresh1]) simp_all
  from IH have IH_head: "m_head ?s' = of_nat (Suc n + length ks)"
    and IH_size: "m_queue_size ?s' = m_queue_size ?s1 + of_nat (length ks)"
    and IH_slots: "\<And>i. i < length ks \<Longrightarrow>
            m_hash_lookup ?s' (ks ! i) = of_nat (Suc n + i) \<and>
            m_debug_queue ?s' (of_nat (Suc n + i)) =
              (m_debug_queue ?s1 (of_nat (Suc n + i)))\<lparr> index := ks ! i, value := vs ! i \<rparr>"
    and IH_keep: "\<And>j. unat j < Suc n \<or> Suc n + length ks \<le> unat j \<Longrightarrow>
            m_debug_queue ?s' j = m_debug_queue ?s1 j"
    and IH_others: "\<And>k. k \<notin> set ks \<Longrightarrow> m_hash_lookup ?s' k = m_hash_lookup ?s1 k"
    by blast+
  have run: "run_ops (map2 Set (k # ks) (v # vs)) s = ?s'"
    by simp
  have un: "unat (of_nat n :: u8) = n"
    by (rule unat_of_nat_u8 [OF n])
  have q1: "m_debug_queue ?s1 j = m_debug_queue s j" if "unat j \<noteq> n" for j
    using that un by (auto simp: s1 Cons.prems(1))
  have q1n: "m_debug_queue ?s1 (of_nat n) = (m_debug_queue s (of_nat n))\<lparr> index := k, value := v \<rparr>"
    by (simp add: s1 Cons.prems(1))
  have l1: "m_hash_lookup ?s1 k' = m_hash_lookup s k'" if "k' \<noteq> k" for k'
    using that by (simp add: s1)
  have l1k: "m_hash_lookup ?s1 k = of_nat n"
    by (simp add: s1 Cons.prems(1))
  have slots: "m_hash_lookup ?s' ((k # ks) ! i) = of_nat (n + i) \<and>
            m_debug_queue ?s' (of_nat (n + i)) =
              (m_debug_queue s (of_nat (n + i)))\<lparr> index := (k # ks) ! i, value := (v # vs) ! i \<rparr>"
    if i: "i < length (k # ks)" for i
  proof (cases i)
    case 0
    have "k \<notin> set ks"
      using Cons.prems(3) by simp
    then have "m_hash_lookup ?s' k = m_hash_lookup ?s1 k"
      by (rule IH_others)
    moreover have "m_debug_queue ?s' (of_nat n) = m_debug_queue ?s1 (of_nat n)"
      by (rule IH_keep) (simp add: un)
    ultimately show ?thesis
      using 0 l1k q1n by simp
  next
    case (Suc i')
    with i have i': "i' < length ks"
      by simp
    with Cons.prems(4) have "Suc n + i' < 256"
      by simp
    then have "unat (of_nat (Suc n + i') :: u8) = Suc n + i'"
      by (rule unat_of_nat_u8)
    then have "unat (of_nat (Suc n + i') :: u8) \<noteq> n"
      by linarith
    from q1 [OF this] IH_slots [OF i'] show ?thesis
      using Suc by simp
  qed
  have keep: "m_debug_queue ?s' j = m_debug_queue s j"
    if "unat j < n \<or> n + length (k # ks) \<le> unat j" for j
  proof -
    from that have *: "unat j < Suc n \<or> Suc n + length ks \<le> unat j" and **: "unat j \<noteq> n"
      by auto
    from IH_keep [OF *] q1 [OF **] show ?thesis
      by simp
  qed
  have others: "m_hash_lookup ?s' k' = m_hash_lookup s k'" if "k' \<notin> set (k # ks)" for k'
    using that IH_others [of k'] l1 [of k'] by simp
  have size: "m_queue_size ?s' = m_queue_size s + of_nat (length (k # ks))"
    using IH_size by (simp add: s1)
  have head: "m_head ?s' = of_nat (n + length (k # ks))"
    using IH_head by simp
  show ?case
    unfolding run using head size slots keep others by blast
qed


text \<open>
  Claim C4 speaks of \<open>N + 1\<close> distinct keys and of a \<open>CapacityExceeded\<close> error for
  \<open>N = DEBUG_QUEUE_SIZE = 256\<close>. The code has neither: a key is a byte, so there are 256
  distinct keys, and \<open>ad_set_debug_field\<close> returns nothing. What holds, C4 as amended: from
  an initialised registry, set calls on up to \<open>N - 1 = 255\<close> distinct keys all succeed. The
  \<open>i\<close>-th key gets slot \<open>i\<close> with its value, \<open>m_queue_size\<close> is the number of keys, no
  key outside the sequence gets a lookup entry, and \<open>ad_get_debug_field\<close> returns the value
  of every key other than 255.
\<close>

theorem set_distinct_keys_below_capacity:
  assumes dist: "distinct ks"
    and below: "length ks < DEBUG_QUEUE_SIZE"
    and len: "length vs = length ks"
  shows "(let s = run_ops (map2 Set ks vs) (ad_init s0) in
          unat (m_queue_size s) = length ks \<and>
          (\<forall>i < length ks.
             m_hash_lookup s (ks ! i) = of_nat i \<and>
             m_debug_queue s (of_nat i) =
               \<lparr> index = ks ! i, value = vs ! i,
                 output = output (m_debug_queue s0 (of_nat i)) \<rparr> \<and>
             (ks ! i \<noteq> ANT_DEBUG_FIELD_INVALID \<longrightarrow>
                ad_get_debug_field (ks ! i) s = Some (vs ! i))) \<and>
          (\<forall>k. k \<notin> set ks \<longrightarrow> m_hash_lookup s k = ANT_DEBUG_FIELD_INVALID))"
proof -
  let ?s = "run_ops (map2 Set ks vs) (ad_init s0)"
  have n: "length ks < 256"
    using below by (simp add: DEBUG_QUEUE_SIZE_def)
  have "m_head (ad_init s0) = of_nat 0"
    and "\<forall>k \<in> set ks. m_hash_lookup (ad_init s0) k = ANT_DEBUG_FIELD_INVALID"
    and "0 + length ks \<le> 256"
    using n by (simp_all add: ad_init_eq)
  from run_set_fresh [OF len [symmetric] this(1,2) dist this(3)]
  have size: "m_queue_size ?s = m_queue_size (ad_init s0) + of_nat (length ks)"
    and slots: "\<And>i. i < length ks \<Longrightarrow>
            m_hash_lookup ?s (ks ! i) = of_nat (0 + i) \<and>
            m_debug_queue ?s (of_nat (0 + i)) =
              (m_debug_queue (ad_init s0) (of_nat (0 + i)))\<lparr> index := ks ! i, value := vs ! i \<rparr>"
    and others: "\<And>k. k \<notin> set ks \<Longrightarrow> m_hash_lookup ?s k = m_hash_lookup (ad_init s0) k"
    by blast+
  have sz: "unat (m_queue_size ?s) = length ks"
    unfolding size using n by (simp add: ad_init_eq unat_of_nat_u8)
  have each: "m_hash_lookup ?s (ks ! i) = of_nat i \<and>
             m_debug_queue ?s (of_nat i) =
               \<lparr> index = ks ! i, value = vs ! i,
                 output = output (m_debug_queue s0 (of_nat i)) \<rparr> \<and>
             (ks ! i \<noteq> ANT_DEBUG_FIELD_INVALID \<longrightarrow>
                ad_get_debug_field (ks ! i) ?s = Some (vs ! i))"
    if i: "i < length ks" for i
  proof -
    from slots [OF i] have l: "m_hash_lookup ?s (ks ! i) = of_nat i"
      and q: "m_debug_queue ?s (of_nat i) =
               \<lparr> index = ks ! i, value = vs ! i,
                 output = output (m_debug_queue s0 (of_nat i)) \<rparr>"
      by (simp_all add: ad_init_eq)
    then show ?thesis
      by (simp add: ad_get_debug_field_def)
  qed
  have rest: "m_hash_lookup ?s k = ANT_DEBUG_FIELD_INVALID" if "k \<notin> set ks" for k
    using others [OF that] by (simp add: ad_init_eq)
  show ?thesis
    unfolding Let_def using sz each rest by blast
qed

theorem set_distinct_keys_below_capacity_witness:
  "distinct [5, 9, 255 :: u8] \<and> length [5, 9, 255 :: u8] < DEBUG_QUEUE_SIZE \<and>
   length [100, 7, 1 :: u16] = length [5, 9, 255 :: u8] \<and>
   unat (m_queue_size (run_ops (map2 Set [5, 9, 255] [100, 7, 1]) (ad_init power_on))) = 3 \<and>
   ad_get_debug_field 9 (run_ops (map2 Set [5, 9, 255] [100, 7, 1]) (ad_init power_on)) = Some 7"
proof -
  have h: "distinct [5, 9, 255 :: u8]" "length [5, 9, 255 :: u8] < DEBUG_QUEUE_SIZE"
    "length [100, 7, 1 :: u16] = length [5, 9, 255 :: u8]"
    by (simp_all add: DEBUG_QUEUE_SIZE_def)
  from set_distinct_keys_below_capacity [OF h, of power_on, unfolded Let_def]
  have "unat (m_queue_size (run_ops (map2 Set [5, 9, 255] [100, 7, 1]) (ad_init power_on)))
          = length [5, 9, 255 :: u8]"
    and "\<forall>i < length [5, 9, 255 :: u8].
           [5, 9, 255 :: u8] ! i \<noteq> ANT_DEBUG_FIELD_INVALID \<longrightarrow>
           ad_get_debug_field ([5, 9, 255] ! i)
             (run_ops (map2 Set [5, 9, 255] [100, 7, 1]) (ad_init power_on))
           = Some ([100, 7, 1] ! i)"
    by blast+
  from this(1) this(2) [rule_format, of 1] h show ?thesis
    by (simp add: ANT_DEBUG_FIELD_INVALID_def)
qed

text \<open>
  The claim as stated fails at the 256 keys 0, 1, ..., 255 set in this order: the last one
  takes slot 255, whose number is the sentinel, so the key stays unknown to the lookup and
  to \<open>ad_get_debug_field\<close>, and the byte \<open>m_queue_size\<close> wraps to 0.
\<close>

lemma distinct_all_keys: "distinct (map of_nat [0..<256] :: u8 list)"
proof -
  have "inj_on (of_nat :: nat \<Rightarrow> u8) (set [0..<256])"
    by (rule inj_on_inverseI [where g = unat]) (simp add: unat_of_nat_u8)
  then show ?thesis
    by (simp only: distinct_map distinct_upt simp_thms)
qed

theorem capacity_counterexample:
  "m_queue_size (run_ops (map2 Set (map of_nat [0..<256]) (replicate 256 1)) (ad_init power_on)) = 0 \<and>
   m_hash_lookup (run_ops (map2 Set (map of_nat [0..<256]) (replicate 256 1)) (ad_init power_on))
     255 = ANT_DEBUG_FIELD_INVALID \<and>
   ad_get_debug_field 255
     (run_ops (map2 Set (map of_nat [0..<256]) (replicate 256 1)) (ad_init power_on)) = None"
proof -
  define ks :: "u8 list" where "ks = map of_nat [0..<256]"
  define vs :: "u16 list" where "vs = replicate 256 1"
  let ?s = "run_ops (map2 Set ks vs) (ad_init power_on)"
  have len: "length ks = length vs" and l256: "length ks = 256"
    by (simp_all add: ks_def vs_def del: upt_rec_numeral)
  have dist: "distinct ks"
    unfolding ks_def by (rule distinct_all_keys)
  have last: "ks ! 255 = 255"
    by (simp add: ks_def del: upt_rec_numeral)
  have "m_head (ad_init power_on) = of_nat 0"
    and "\<forall>k \<in> set ks. m_hash_lookup (ad_init power_on) k = ANT_DEBUG_FIELD_INVALID"
    and "0 + length ks \<le> 256"
    by (simp_all add: ad_init_eq l256)
  from run_set_fresh [OF len this(1,2) dist this(3)]
  have size: "m_queue_size ?s = m_queue_size (ad_init power_on) + of_nat (length ks)"
    and slots: "\<And>i. i < length ks \<Longrightarrow>
            m_hash_lookup ?s (ks ! i) = of_nat (0 + i) \<and>
            m_debug_queue ?s (of_nat (0 + i)) =
              (m_debug_queue (ad_init power_on) (of_nat (0 + i)))
                \<lparr> index := ks ! i, value := vs ! i \<rparr>"
    by blast+
  have sz: "m_queue_size ?s = 0"
    unfolding size by (simp add: l256 ad_init_eq)
  from slots [of 255] have l: "m_hash_lookup ?s 255 = 255"
    and q: "index (m_debug_queue ?s 255) = 255"
    by (simp_all add: l256 last)
  have g: "ad_get_debug_field 255 ?s = None"
    by (simp add: ad_get_debug_field_def l q ANT_DEBUG_FIELD_INVALID_def)
  from sz l g show ?thesis
    unfolding ks_def vs_def ANT_DEBUG_FIELD_INVALID_def by (intro conjI)
qed

subsection \<open>Filter isolation\<close>

lemma set_frame:
  "m_selective_debug (ad_set_debug_field k v s) = m_selective_debug s"
  "output (m_debug_queue (ad_set_debug_field k v s) i) = output (m_debug_queue s i)"
  "m_hash_lookup s k' \<noteq> ANT_DEBUG_FIELD_INVALID \<Longrightarrow>
     m_hash_lookup (ad_set_debug_field k v s) k' = m_hash_lookup s k'"
  by (cases "m_hash_lookup s k = ANT_DEBUG_FIELD_INVALID"; auto simp: set_known set_unknown)+

lemma filtered_to_set:
  assumes "filtered_to K s" and "k \<noteq> ANT_DEBUG_FIELD_INVALID"
  shows "filtered_to K (ad_set_debug_field k v s)"
  using assms unfolding filtered_to_def
  by (simp add: reg_ok_set set_frame) (metis set_frame(3))

lemma filtered_to_exec_op:
  assumes "filtered_to K s" and "field_update x"
  shows "filtered_to K (exec_op x s)"
  using assms
  by (cases x) (auto simp: filtered_to_set ad_increment_debug_field_def split: option.split)

lemma filtered_to_run_ops:
  "filtered_to K s \<Longrightarrow> \<forall>x \<in> set ops. field_update x \<Longrightarrow> filtered_to K (run_ops ops s)"
  by (induction ops arbitrary: s) (simp_all add: filtered_to_exec_op)

lemma filtered_to_decode:
  assumes ok: "reg_ok s" and clean: "\<forall>i. \<not> output (m_debug_queue s i)"
    and cmd: "payload 1 = ANT_DEBUG_FILTER_COMMAND"
    and sub: "payload 2 = ANT_DEBUG_SUB_COMMAND_FILTER_ADD"
    and K: "payload ` {3..<8} - {ANT_DEBUG_FIELD_INVALID} = K" and ne: "K \<noteq> {}"
  shows "filtered_to K (ad_decode_debug_command payload s)"
proof -
  let ?bs = "map payload [3..<8]"
  let ?s0 = "s\<lparr> m_selective_debug := True \<rparr>"
  let ?s' = "fold filter_add_body ?bs ?s0"
  have set_bs: "set ?bs = payload ` {3..<8}"
    by (simp only: set_map set_upt)
  have "reg_ok ?s0 = reg_ok s"
    by (rule reg_ok_cong) simp_all
  with ok have ok0: "reg_ok ?s0"
    by simp
  have inK: "b \<in> set ?bs \<and> b \<noteq> ANT_DEBUG_FIELD_INVALID \<longleftrightarrow> b \<in> K" for b
    unfolding set_bs using K by blast
  have named: "m_hash_lookup ?s' b \<noteq> ANT_DEBUG_FIELD_INVALID \<and>
               output (m_debug_queue ?s' (m_hash_lookup ?s' b))" if "b \<in> K" for b
    using that inK [of b] fold_body_named [OF ok0, of b ?bs] by blast
  have only: "\<exists>k \<in> K. m_hash_lookup ?s' k \<noteq> ANT_DEBUG_FIELD_INVALID \<and> m_hash_lookup ?s' k = i"
    if out: "output (m_debug_queue ?s' i)" for i
  proof -
    have "\<not> output (m_debug_queue ?s0 i)"
      using clean by simp
    with fold_body_output_new [OF ok0 out]
    obtain b where "b \<in> set ?bs" "b \<noteq> ANT_DEBUG_FIELD_INVALID" "i = m_hash_lookup ?s' b"
      by blast
    with inK [of b] named [of b] show ?thesis
      by blast
  qed
  from ne obtain k where "k \<in> K"
    by blast
  with named have some: "\<exists>k \<in> K. m_hash_lookup ?s' k \<noteq> ANT_DEBUG_FIELD_INVALID \<and>
               output (m_debug_queue ?s' (m_hash_lookup ?s' k))"
    by blast
  have "m_selective_debug ?s'"
    by (simp only: fold_body_frame) simp
  with reg_ok_fold_body [OF ok0, of ?bs] some only show ?thesis
    unfolding filtered_to_def decode_add [OF cmd sub] by blast
qed

text \<open>
  With the filter in force a transmit opportunity builds a page, both of whose pairs carry
  a key of \<open>K\<close>, and leaves the filter in force.
\<close>

lemma filtered_to_tx:
  assumes f: "filtered_to K s"
  shows "\<exists>s'. ad_update_tx s = Some s' \<and> filtered_to K s' \<and>
              m_tx_buffer s' 2 \<in> K \<and> m_tx_buffer s' 5 \<in> K"
proof -
  from f have ok: "reg_ok s" and sel: "m_selective_debug s"
    and only: "\<And>i. output (m_debug_queue s i) \<Longrightarrow>
                 \<exists>k \<in> K. m_hash_lookup s k \<noteq> ANT_DEBUG_FIELD_INVALID \<and> m_hash_lookup s k = i"
    by (simp_all add: filtered_to_def)
  from f obtain k where k: "k \<in> K" "m_hash_lookup s k \<noteq> ANT_DEBUG_FIELD_INVALID"
    "output (m_debug_queue s (m_hash_lookup s k))"
    by (auto simp: filtered_to_def)
  let ?j = "m_hash_lookup s k"
  have j: "?j < m_queue_size s"
    using ok k(2) by (simp add: reg_ok_def)
  have el: "ad_output_debug_mesg s ?j"
    using k(3) by (simp add: ad_output_debug_mesg_def)
  have key: "index (m_debug_queue s i) \<in> K" if "ad_output_debug_mesg s i" for i
  proof -
    from that sel have "output (m_debug_queue s i)"
      by (simp add: ad_output_debug_mesg_def)
    from only [OF this] obtain k' where "k' \<in> K" "m_hash_lookup s k' \<noteq> ANT_DEBUG_FIELD_INVALID"
      "m_hash_lookup s k' = i"
      by blast
    with ok show ?thesis
      by (auto simp: reg_ok_def)
  qed
  let ?d0 = "(m_tx_buffer s)(0 := ANT_DEBUG_PAGE_MESSAGE,
               ANT_FAST_DEBUG_BYTE_INDEX := m_fast_debug_byte s)"
  let ?c = "m_current_index_debug_channel s"
  from get_page_loop_returns [OF j el, of 0 ?d0 ?c]
  obtain d' c' where ret: "get_page_loop s 0 ?d0 ?c = Some (d', c')"
    and pairs: "\<And>m. m < 2 \<Longrightarrow> \<exists>i. (i < m_queue_size s \<or> i = ?c) \<and> ad_output_debug_mesg s i \<and>
                          field_at s i d' (2 + 3 * m)"
    by auto
  from pairs [of 0] key have p0: "d' 2 \<in> K"
    by (auto simp: field_at_def)
  from pairs [of 1] key have p1: "d' 5 \<in> K"
    by (auto simp: field_at_def)
  let ?s' = "s\<lparr> m_tx_buffer := d', m_current_index_debug_channel := c' \<rparr>"
  have pos: "0 < m_queue_size s"
    using j by (auto simp: word_less_nat_alt)
  have tx: "ad_update_tx s = Some ?s'"
    using pos ret by (simp add: ad_update_tx_def ad_get_debug_page_def)
  have "reg_ok ?s' = reg_ok s"
    by (rule reg_ok_cong) simp_all
  with f have "filtered_to K ?s'"
    by (simp add: filtered_to_def)
  with tx p0 p1 show ?thesis
    by simp
qed

lemma filtered_to_run_tx:
  assumes "filtered_to K s" and "\<forall>ops \<in> set batches. \<forall>x \<in> set ops. field_update x"
  shows "\<exists>s'. run_tx batches s = Some s' \<and> filtered_to K s' \<and>
              (batches \<noteq> [] \<longrightarrow> m_tx_buffer s' 2 \<in> K \<and> m_tx_buffer s' 5 \<in> K)"
  using assms
proof (induction batches arbitrary: s)
  case Nil
  then show ?case by simp
next
  case (Cons ops rest)
  from Cons.prems have "filtered_to K (run_ops ops s)"
    by (simp add: filtered_to_run_ops)
  from filtered_to_tx [OF this] obtain s1 where tx: "ad_update_tx (run_ops ops s) = Some s1"
    and f1: "filtered_to K s1" and keys: "m_tx_buffer s1 2 \<in> K" "m_tx_buffer s1 5 \<in> K"
    by blast
  from Cons.IH [OF f1] Cons.prems(2) obtain s' where run: "run_tx rest s1 = Some s'"
    and f': "filtered_to K s'"
    and keys': "rest \<noteq> [] \<longrightarrow> m_tx_buffer s' 2 \<in> K \<and> m_tx_buffer s' 5 \<in> K"
    by auto
  show ?case
  proof (cases "rest = []")
    case True
    with run tx f1 keys show ?thesis
      by simp
  next
    case False
    with run tx f' keys' show ?thesis
      by simp
  qed
qed


subsection \<open>Pages without a filter\<close>

text \<open>
  With selective mode off and a non-empty registry, a page carries the slot under the
  cursor and the next one, and the cursor moves on by two.
\<close>

lemma tx_plain:
  assumes "\<not> m_selective_debug s" and "0 < m_queue_size s"
  shows "ad_update_tx s =
    Some (s\<lparr> m_tx_buffer :=
              write_field s (advance s (m_current_index_debug_channel s)) 5
                (write_field s (m_current_index_debug_channel s) 2
                   ((m_tx_buffer s)(0 := ANT_DEBUG_PAGE_MESSAGE,
                      ANT_FAST_DEBUG_BYTE_INDEX := m_fast_debug_byte s))),
            m_current_index_debug_channel :=
              advance s (advance s (m_current_index_debug_channel s)) \<rparr>)"
proof -
  have el: "ad_output_debug_mesg s i" for i
    using assms(1) by (simp add: ad_output_debug_mesg_def)
  have l2: "get_page_loop s 2 d c = Some (d, c)" for d c
    by (subst get_page_loop.simps) simp
  have l1: "get_page_loop s 1 d c = Some (write_field s c 5 d, advance s c)" for d c
    by (subst get_page_loop.simps)
      (simp add: el l2 ANT_PAGE_DEBUG_KEY0_INDEX_def ANT_PAGE_DEBUG_VALUE_SIZE_def)
  have l0: "get_page_loop s 0 d c =
              Some (write_field s (advance s c) 5 (write_field s c 2 d), advance s (advance s c))"
    for d c
    by (subst get_page_loop.simps)
      (simp add: el l1 ANT_PAGE_DEBUG_KEY0_INDEX_def ANT_PAGE_DEBUG_VALUE_SIZE_def)
  show ?thesis
    using assms(2) by (simp add: ad_update_tx_def ad_get_debug_page_def l0)
qed

lemma steps_to_size:
  "m_queue_size s' = m_queue_size s \<Longrightarrow> steps_to s' j c = steps_to s j c"
  by (simp add: steps_to_def)

lemma advance_size:
  "m_queue_size s' = m_queue_size s \<Longrightarrow> advance s' c = advance s c"
  by (simp add: advance_def)

text \<open>Every occupied slot comes up in some page: the pages cycle over the registry.\<close>

lemma plain_pages_cover:
  assumes "\<not> m_selective_debug s" and "i < m_queue_size s"
  shows "\<exists>n s'. run_tx (replicate (Suc n) []) s = Some s' \<and>
           (m_tx_buffer s' 2 = index (m_debug_queue s i) \<or>
            m_tx_buffer s' 5 = index (m_debug_queue s i))"
  using assms
proof (induction "steps_to s i (m_current_index_debug_channel s)" arbitrary: s rule: less_induct)
  case less
  let ?c = "m_current_index_debug_channel s"
  let ?s1 = "s\<lparr> m_tx_buffer :=
              write_field s (advance s ?c) 5
                (write_field s ?c 2
                   ((m_tx_buffer s)(0 := ANT_DEBUG_PAGE_MESSAGE,
                      ANT_FAST_DEBUG_BYTE_INDEX := m_fast_debug_byte s))),
            m_current_index_debug_channel := advance s (advance s ?c) \<rparr>"
  have pos: "0 < m_queue_size s"
    using less.prems(2) by (auto simp: word_less_nat_alt)
  note tx = tx_plain [OF less.prems(1) pos]
  have b2: "m_tx_buffer ?s1 2 = index (m_debug_queue s ?c)"
    and b5: "m_tx_buffer ?s1 5 = index (m_debug_queue s (advance s ?c))"
    by (simp_all add: write_field_def)
  show ?case
  proof (cases "?c = i \<or> advance s ?c = i")
    case True
    have "run_tx (replicate (Suc 0) []) s = Some ?s1"
      by (simp add: tx)
    with True b2 b5 show ?thesis
      by (metis (no_types, lifting))
  next
    case False
    from False steps_to_advance [OF less.prems(2), of ?c]
      steps_to_advance [OF less.prems(2), of "advance s ?c"]
    have "steps_to s i (advance s (advance s ?c)) < steps_to s i ?c"
      by simp
    then have "steps_to ?s1 i (m_current_index_debug_channel ?s1) < steps_to s i ?c"
      by (simp add: steps_to_size [of ?s1 s])
    from less.hyps [OF this] less.prems
    obtain n s' where run: "run_tx (replicate (Suc n) []) ?s1 = Some s'"
      and key: "m_tx_buffer s' 2 = index (m_debug_queue s i) \<or>
                m_tx_buffer s' 5 = index (m_debug_queue s i)"
      by auto
    have "run_tx (replicate (Suc (Suc n)) []) s = Some s'"
      using run by (simp add: tx)
    with key show ?thesis
      by blast
  qed
qed

subsection \<open>Known keys stay known\<close>

lemma lookup_known_exec_op:
  assumes "m_hash_lookup s k \<noteq> ANT_DEBUG_FIELD_INVALID"
  shows "m_hash_lookup (exec_op x s) k = m_hash_lookup s k"
proof (cases x)
  case (Set k' v)
  with assms show ?thesis
    by (simp add: set_frame)
next
  case (Increment k')
  with assms show ?thesis
    by (simp add: ad_increment_debug_field_def set_frame split: option.split)
next
  case (Decode payload)
  show ?thesis
  proof (cases rule: decode_cases [where payload = payload and s = s])
    case add
    from assms have "m_hash_lookup (s\<lparr> m_selective_debug := True \<rparr>) k \<noteq> ANT_DEBUG_FIELD_INVALID"
      by simp
    from fold_body_lookup_known [OF this, of "map payload [3..<8]"] show ?thesis
      by (simp add: Decode decode_add [OF add])
  next
    case clear
    then show ?thesis
      by (simp add: Decode decode_clear)
  next
    case other
    then show ?thesis
      by (simp add: Decode)
  qed
qed

lemma lookup_known_run_ops:
  "m_hash_lookup s k \<noteq> ANT_DEBUG_FIELD_INVALID \<Longrightarrow>
   m_hash_lookup (run_ops ops s) k = m_hash_lookup s k"
  by (induction ops arbitrary: s) (simp_all add: lookup_known_exec_op)

lemma tx_lookup:
  "ad_update_tx s = Some s' \<Longrightarrow> m_hash_lookup s' = m_hash_lookup s"
  by (auto simp: ad_update_tx_def split: option.splits)

lemma lookup_known_run_tx:
  "run_tx batches s = Some s' \<Longrightarrow> m_hash_lookup s k \<noteq> ANT_DEBUG_FIELD_INVALID \<Longrightarrow>
   m_hash_lookup s' k = m_hash_lookup s k"
proof (induction batches arbitrary: s)
  case Nil
  then show ?case by simp
next
  case (Cons ops rest)
  from Cons.prems(1) obtain s1 where tx: "ad_update_tx (run_ops ops s) = Some s1"
    and run: "run_tx rest s1 = Some s'"
    by (auto split: option.splits)
  from tx_lookup [OF tx] lookup_known_run_ops [OF Cons.prems(2), of ops]
  have "m_hash_lookup s1 k = m_hash_lookup s k"
    by simp
  with Cons.IH [OF run] Cons.prems(2) show ?case
    by simp
qed

text \<open>
  Claim C6 says that after a filter-add command naming \<open>{A, B}\<close> the pages carry keys
  from \<open>{A, B}\<close> only. The code adds to the filter that is there: the command sets
  \<open>output\<close> flags and clears none, and neither \<open>ad_init\<close> nor \<open>ad_set_debug_field\<close> ever
  clears one. What holds, C6 as amended: let a filter-add command be decoded in a registry
  of the key domain in which no slot has its \<open>output\<close> flag set, and let \<open>{A, B}\<close> be the
  keys it names (its argument bytes other than 255). However the caller writes fields of
  the key domain between the transmit opportunities, every page built from then on is
  built (the page build returns) and carries keys from \<open>{A, B}\<close> in both of its pairs.
  Once a filter-clear command is decoded, the pages cycle over the registry again: every
  registered key comes up in a page.
\<close>

theorem filter_isolation:
  assumes ok: "reg_ok s"
    and clean: "\<forall>i. \<not> output (m_debug_queue s i)"
    and cmd: "payload 1 = ANT_DEBUG_FILTER_COMMAND"
    and sub: "payload 2 = ANT_DEBUG_SUB_COMMAND_FILTER_ADD"
    and named: "payload ` {3..<8} - {ANT_DEBUG_FIELD_INVALID} = {A, B}"
    and upd: "\<forall>ops \<in> set batches. \<forall>x \<in> set ops. field_update x"
    and cmd': "clear 1 = ANT_DEBUG_FILTER_COMMAND"
    and sub': "clear 2 = ANT_DEBUG_SUB_COMMAND_FILTER_CLEAR"
  shows "\<exists>s'. run_tx batches (ad_decode_debug_command payload s) = Some s' \<and>
           (batches \<noteq> [] \<longrightarrow> m_tx_buffer s' 2 \<in> {A, B} \<and> m_tx_buffer s' 5 \<in> {A, B}) \<and>
           (\<forall>k. m_hash_lookup s k \<noteq> ANT_DEBUG_FIELD_INVALID \<or> k \<in> {A, B} \<longrightarrow>
              m_hash_lookup s' k \<noteq> ANT_DEBUG_FIELD_INVALID) \<and>
           (\<forall>k. m_hash_lookup s' k \<noteq> ANT_DEBUG_FIELD_INVALID \<longrightarrow>
              (\<exists>n s''. run_tx (replicate (Suc n) []) (ad_decode_debug_command clear s') = Some s'' \<and>
                 (m_tx_buffer s'' 2 = k \<or> m_tx_buffer s'' 5 = k)))"
proof -
  let ?s1 = "ad_decode_debug_command payload s"
  have "filtered_to {A, B} ?s1"
    by (rule filtered_to_decode [OF ok clean cmd sub named]) simp
  from filtered_to_run_tx [OF this upd]
  obtain s' where run: "run_tx batches ?s1 = Some s'"
    and f: "filtered_to {A, B} s'"
    and keys: "batches \<noteq> [] \<longrightarrow> m_tx_buffer s' 2 \<in> {A, B} \<and> m_tx_buffer s' 5 \<in> {A, B}"
    by blast
  have known: "m_hash_lookup s' k \<noteq> ANT_DEBUG_FIELD_INVALID"
    if k: "m_hash_lookup s k \<noteq> ANT_DEBUG_FIELD_INVALID \<or> k \<in> {A, B}" for k
  proof -
    have "m_hash_lookup ?s1 k \<noteq> ANT_DEBUG_FIELD_INVALID"
    proof (cases "k \<in> {A, B}")
      case True
      with named have "k \<in> set (map payload [3..<8])" and "k \<noteq> ANT_DEBUG_FIELD_INVALID"
        by (auto simp only: set_map set_upt)
      moreover have "reg_ok (s\<lparr> m_selective_debug := True \<rparr>) = reg_ok s"
        by (rule reg_ok_cong) simp_all
      ultimately show ?thesis
        using fold_body_named [of "s\<lparr> m_selective_debug := True \<rparr>" k "map payload [3..<8]"] ok
        by (simp only: decode_add [OF cmd sub] simp_thms)
    next
      case False
      with k lookup_known_exec_op [of s k "Decode payload"] show ?thesis
        by simp
    qed
    with lookup_known_run_tx [OF run, of k] show ?thesis
      by simp
  qed
  let ?s2 = "ad_decode_debug_command clear s'"
  note s2 = decode_clear [OF cmd' sub', of s']
  from f have ok': "reg_ok s'"
    by (simp add: filtered_to_def)
  have cover: "\<exists>n s''. run_tx (replicate (Suc n) []) ?s2 = Some s'' \<and>
                 (m_tx_buffer s'' 2 = k \<or> m_tx_buffer s'' 5 = k)"
    if k: "m_hash_lookup s' k \<noteq> ANT_DEBUG_FIELD_INVALID" for k
  proof -
    from ok' k have slot: "m_hash_lookup s' k < m_queue_size s'"
      and key: "index (m_debug_queue s' (m_hash_lookup s' k)) = k"
      by (simp_all add: reg_ok_def)
    have "\<not> m_selective_debug ?s2" and "m_hash_lookup s' k < m_queue_size ?s2"
      and "index (m_debug_queue ?s2 (m_hash_lookup s' k)) = k"
      using slot key by (simp_all add: s2)
    from plain_pages_cover [OF this(1,2)] this(3) show ?thesis
      by simp
  qed
  from run keys known cover show ?thesis
    by blast
qed

theorem filter_isolation_witness:
  "reg_ok (ad_set_debug_field 5 100 (ad_init power_on)) \<and>
   (\<forall>i. \<not> output (m_debug_queue (ad_set_debug_field 5 100 (ad_init power_on)) i)) \<and>
   payload_of [0xF9, 3, 1, 9, 7, 255, 255, 255] ` {3..<8} - {ANT_DEBUG_FIELD_INVALID} = {9, 7} \<and>
   m_hash_lookup (ad_set_debug_field 5 100 (ad_init power_on)) 9 = ANT_DEBUG_FIELD_INVALID \<and>
   m_hash_lookup (ad_set_debug_field 5 100 (ad_init power_on)) 7 = ANT_DEBUG_FIELD_INVALID \<and>
   field_update (Set 5 101) \<and> field_update (Increment 5) \<and> field_update (Set 3 1) \<and>
   (\<exists>s'. run_tx ([Set 5 101] # [Increment 5, Set 3 1] # [])
            (ad_decode_debug_command (payload_of [0xF9, 3, 1, 9, 7, 255, 255, 255])
               (ad_set_debug_field 5 100 (ad_init power_on))) = Some s' \<and>
         m_tx_buffer s' 2 \<in> {9, 7} \<and> m_tx_buffer s' 5 \<in> {9, 7} \<and>
         (\<exists>n s''. run_tx (replicate (Suc n) [])
                     (ad_decode_debug_command (payload_of [0xF9, 3, 2, 0, 0, 0, 0, 0]) s')
                   = Some s'' \<and>
                 (m_tx_buffer s'' 2 = 5 \<or> m_tx_buffer s'' 5 = 5)))"
proof -
  let ?s = "ad_set_debug_field 5 100 (ad_init power_on)"
  let ?p = "payload_of [0xF9, 3, 1, 9, 7, 255, 255, 255]"
  let ?c = "payload_of [0xF9, 3, 2, 0, 0, 0, 0, 0]"
  let ?batches = "[Set 5 101] # [Increment 5, Set 3 1] # []"
  have ok: "reg_ok ?s"
    by (rule reg_ok_set [OF reg_ok_init]) (simp add: ANT_DEBUG_FIELD_INVALID_def)
  have clean: "\<forall>i. \<not> output (m_debug_queue ?s i)"
    by (simp add: eval_defs const_defs)
  have cmd: "?p 1 = ANT_DEBUG_FILTER_COMMAND" and sub: "?p 2 = ANT_DEBUG_SUB_COMMAND_FILTER_ADD"
    and cmd': "?c 1 = ANT_DEBUG_FILTER_COMMAND" and sub': "?c 2 = ANT_DEBUG_SUB_COMMAND_FILTER_CLEAR"
    by (simp_all add: payload_of_def const_defs)
  have "{3..<8} = {3, 4, 5, 6, 7 :: nat}"
    by auto
  then have named: "?p ` {3..<8} - {ANT_DEBUG_FIELD_INVALID} = {9, 7}"
    by (auto simp: payload_of_def ANT_DEBUG_FIELD_INVALID_def)
  have fresh: "m_hash_lookup ?s 9 = ANT_DEBUG_FIELD_INVALID"
    "m_hash_lookup ?s 7 = ANT_DEBUG_FIELD_INVALID"
    by (simp_all add: eval_defs const_defs)
  have fu: "field_update (Set 5 101)" "field_update (Increment 5)" "field_update (Set 3 1)"
    by (simp_all add: ANT_DEBUG_FIELD_INVALID_def)
  then have upd: "\<forall>ops \<in> set ?batches. \<forall>x \<in> set ops. field_update x"
    by simp
  from filter_isolation [OF ok clean cmd sub named upd cmd' sub']
  obtain s' where run: "run_tx ?batches (ad_decode_debug_command ?p ?s) = Some s'"
    and keys: "m_tx_buffer s' 2 \<in> {9, 7} \<and> m_tx_buffer s' 5 \<in> {9, 7}"
    and known: "\<And>k. m_hash_lookup ?s k \<noteq> ANT_DEBUG_FIELD_INVALID \<or> k \<in> {9, 7} \<Longrightarrow>
              m_hash_lookup s' k \<noteq> ANT_DEBUG_FIELD_INVALID"
    and cover: "\<And>k. m_hash_lookup s' k \<noteq> ANT_DEBUG_FIELD_INVALID \<Longrightarrow>
              \<exists>n s''. run_tx (replicate (Suc n) []) (ad_decode_debug_command ?c s') = Some s'' \<and>
                 (m_tx_buffer s'' 2 = k \<or> m_tx_buffer s'' 5 = k)"
    by blast
  have "m_hash_lookup ?s 5 \<noteq> ANT_DEBUG_FIELD_INVALID"
    by (simp add: eval_defs const_defs)
  then have "m_hash_lookup s' 5 \<noteq> ANT_DEBUG_FIELD_INVALID"
    by (intro known) simp
  from cover [OF this] run keys ok clean named fresh fu show ?thesis
    by blast
qed

subsection \<open>Included flags that a filter-add command finds set\<close>

text \<open>
  A page whose two pairs are the slot under the cursor and the next one, both eligible.
\<close>

lemma tx_two_eligible:
  assumes "0 < m_queue_size s"
    and "ad_output_debug_mesg s (m_current_index_debug_channel s)"
    and "ad_output_debug_mesg s (advance s (m_current_index_debug_channel s))"
  shows "ad_update_tx s =
    Some (s\<lparr> m_tx_buffer :=
              write_field s (advance s (m_current_index_debug_channel s)) 5
                (write_field s (m_current_index_debug_channel s) 2
                   ((m_tx_buffer s)(0 := ANT_DEBUG_PAGE_MESSAGE,
                      ANT_FAST_DEBUG_BYTE_INDEX := m_fast_debug_byte s))),
            m_current_index_debug_channel :=
              advance s (advance s (m_current_index_debug_channel s)) \<rparr>)"
proof -
  let ?c = "m_current_index_debug_channel s"
  have l2: "get_page_loop s 2 d c = Some (d, c)" for d c
    by (subst get_page_loop.simps) simp
  have l1: "get_page_loop s 1 d (advance s ?c)
              = Some (write_field s (advance s ?c) 5 d, advance s (advance s ?c))" for d
    by (subst get_page_loop.simps)
      (simp add: assms(3) l2 ANT_PAGE_DEBUG_KEY0_INDEX_def ANT_PAGE_DEBUG_VALUE_SIZE_def)
  have l0: "get_page_loop s 0 d ?c =
              Some (write_field s (advance s ?c) 5 (write_field s ?c 2 d),
                    advance s (advance s ?c))" for d
    by (subst get_page_loop.simps)
      (simp add: assms(2) l1 ANT_PAGE_DEBUG_KEY0_INDEX_def ANT_PAGE_DEBUG_VALUE_SIZE_def)
  show ?thesis
    using assms(1) by (simp add: ad_update_tx_def ad_get_debug_page_def l0)
qed

text \<open>
  The claim as stated fails where the command finds a flag set. First run: \<open>ad_init\<close>, a
  filter-add for key 5, \<open>ad_init\<close> again and \<open>ad_set_debug_field(9, 1)\<close>; key 9 has taken
  slot 0 with the flag of key 5, selective mode is off, and 7 and 8 are unset. After the
  filter-add for 7 and 8 the next page is \<open>F9 FF 09 01 00 07 FF FF\<close>: it carries key 9.
  Second run: \<open>ad_init\<close>, a filter-add for key 5 and, with no clear between, the filter-add
  for 7 and 8; the next page is \<open>F9 FF 05 FF FF 07 FF FF\<close>: it carries key 5.
\<close>

theorem filter_isolation_counterexample:
  "reg_ok (ad_set_debug_field 9 1
      (ad_init (ad_decode_debug_command (payload_of [0xF9, 3, 1, 5, 255, 255, 255, 255])
                  (ad_init power_on)))) \<and>
   \<not> m_selective_debug (ad_set_debug_field 9 1
      (ad_init (ad_decode_debug_command (payload_of [0xF9, 3, 1, 5, 255, 255, 255, 255])
                  (ad_init power_on)))) \<and>
   m_hash_lookup (ad_set_debug_field 9 1
      (ad_init (ad_decode_debug_command (payload_of [0xF9, 3, 1, 5, 255, 255, 255, 255])
                  (ad_init power_on)))) 7 = ANT_DEBUG_FIELD_INVALID \<and>
   m_hash_lookup (ad_set_debug_field 9 1
      (ad_init (ad_decode_debug_command (payload_of [0xF9, 3, 1, 5, 255, 255, 255, 255])
                  (ad_init power_on)))) 8 = ANT_DEBUG_FIELD_INVALID \<and>
   payload_of [0xF9, 3, 1, 7, 8, 255, 255, 255] ` {3..<8} - {ANT_DEBUG_FIELD_INVALID} = {7, 8} \<and>
   map_option (\<lambda>s'. map (m_tx_buffer s') [0..<8])
     (run_tx ([] # [])
        (ad_decode_debug_command (payload_of [0xF9, 3, 1, 7, 8, 255, 255, 255])
           (ad_set_debug_field 9 1
              (ad_init (ad_decode_debug_command (payload_of [0xF9, 3, 1, 5, 255, 255, 255, 255])
                          (ad_init power_on))))))
     = Some [0xF9, 0xFF, 9, 1, 0, 7, 0xFF, 0xFF] \<and>
   map_option (\<lambda>s'. map (m_tx_buffer s') [0..<8])
     (run_tx ([] # [])
        (ad_decode_debug_command (payload_of [0xF9, 3, 1, 7, 8, 255, 255, 255])
           (ad_decode_debug_command (payload_of [0xF9, 3, 1, 5, 255, 255, 255, 255])
              (ad_init power_on))))
     = Some [0xF9, 0xFF, 5, 0xFF, 0xFF, 7, 0xFF, 0xFF]"
proof -
  let ?p5 = "payload_of [0xF9, 3, 1, 5, 255, 255, 255, 255]"
  let ?p78 = "payload_of [0xF9, 3, 1, 7, 8, 255, 255, 255]"
  define s0 where "s0 = ad_set_debug_field 9 1 (ad_init (ad_decode_debug_command ?p5 (ad_init power_on)))"
  define s where "s = ad_decode_debug_command ?p78 s0"
  define t where "t = ad_decode_debug_command ?p78 (ad_decode_debug_command ?p5 (ad_init power_on))"
  have ok: "reg_ok s0"
    unfolding s0_def by (rule reg_ok_set [OF reg_ok_init]) (simp add: ANT_DEBUG_FIELD_INVALID_def)
  have off: "\<not> m_selective_debug s0"
    and unset: "m_hash_lookup s0 7 = ANT_DEBUG_FIELD_INVALID"
      "m_hash_lookup s0 8 = ANT_DEBUG_FIELD_INVALID"
    by (simp_all add: s0_def eval_defs const_defs)
  have "{3..<8} = {3, 4, 5, 6, 7 :: nat}"
    by auto
  then have named: "?p78 ` {3..<8} - {ANT_DEBUG_FIELD_INVALID} = {7, 8}"
    by (auto simp: payload_of_def ANT_DEBUG_FIELD_INVALID_def)
  have s: "m_queue_size s = 3" "m_current_index_debug_channel s = 0" "m_selective_debug s"
    "m_fast_debug_byte s = 0xFF" "m_tx_buffer s = (\<lambda>_. 0)"
    "m_debug_queue s 0 = \<lparr> index = 9, value = 1, output = True \<rparr>"
    "m_debug_queue s 1 = \<lparr> index = 7, value = 0xFFFF, output = True \<rparr>"
    by (simp_all add: s_def s0_def eval_defs const_defs)
  have adv: "advance s 0 = 1"
    by (simp add: advance_def s word_le_nat_alt)
  have "ad_update_tx s = Some (s\<lparr> m_tx_buffer :=
              write_field s (advance s (m_current_index_debug_channel s)) 5
                (write_field s (m_current_index_debug_channel s) 2
                   ((m_tx_buffer s)(0 := ANT_DEBUG_PAGE_MESSAGE,
                      ANT_FAST_DEBUG_BYTE_INDEX := m_fast_debug_byte s))),
            m_current_index_debug_channel :=
              advance s (advance s (m_current_index_debug_channel s)) \<rparr>)"
    by (rule tx_two_eligible) (simp_all add: s adv ad_output_debug_mesg_def)
  then have page_s: "map_option (\<lambda>s'. map (m_tx_buffer s') [0..<8]) (run_tx ([] # []) s)
                  = Some [0xF9, 0xFF, 9, 1, 0, 7, 0xFF, 0xFF]"
    by (simp add: s adv write_field_def const_defs upt_rec)
  have t: "m_queue_size t = 3" "m_current_index_debug_channel t = 0" "m_selective_debug t"
    "m_fast_debug_byte t = 0xFF" "m_tx_buffer t = (\<lambda>_. 0)"
    "m_debug_queue t 0 = \<lparr> index = 5, value = 0xFFFF, output = True \<rparr>"
    "m_debug_queue t 1 = \<lparr> index = 7, value = 0xFFFF, output = True \<rparr>"
    by (simp_all add: t_def eval_defs const_defs)
  have advt: "advance t 0 = 1"
    by (simp add: advance_def t word_le_nat_alt)
  have "ad_update_tx t = Some (t\<lparr> m_tx_buffer :=
              write_field t (advance t (m_current_index_debug_channel t)) 5
                (write_field t (m_current_index_debug_channel t) 2
                   ((m_tx_buffer t)(0 := ANT_DEBUG_PAGE_MESSAGE,
                      ANT_FAST_DEBUG_BYTE_INDEX := m_fast_debug_byte t))),
            m_current_index_debug_channel :=
              advance t (advance t (m_current_index_debug_channel t)) \<rparr>)"
    by (rule tx_two_eligible) (simp_all add: t advt ad_output_debug_mesg_def)
  then have page_t: "map_option (\<lambda>s'. map (m_tx_buffer s') [0..<8]) (run_tx ([] # []) t)
                  = Some [0xF9, 0xFF, 5, 0xFF, 0xFF, 7, 0xFF, 0xFF]"
    by (simp add: t advt write_field_def const_defs upt_rec)
  from ok off unset named page_s page_t show ?thesis
    unfolding s_def s0_def t_def by (intro conjI)
qed

subsection \<open>Present keys\<close>

text \<open>
  In a registry of the key domain the operations do for a key of the domain what their
  names say: a key that was set reads back its last value, and incrementing a present key
  adds one to its 16-bit value (\<open>0xFFFF + 1 = 0\<close> in \<open>u16\<close>) and changes nothing else.
\<close>

lemma get_present:
  assumes "reg_ok s" and "k \<noteq> ANT_DEBUG_FIELD_INVALID"
    and "m_hash_lookup s k \<noteq> ANT_DEBUG_FIELD_INVALID"
  shows "ad_get_debug_field k s = Some (value (m_debug_queue s (m_hash_lookup s k)))"
  using assms by (simp add: ad_get_debug_field_def reg_ok_def)

lemma get_after_set:
  assumes "reg_ok s" and "k \<noteq> ANT_DEBUG_FIELD_INVALID"
  shows "ad_get_debug_field k (ad_set_debug_field k v s) = Some v"
proof (cases "m_hash_lookup s k = ANT_DEBUG_FIELD_INVALID")
  case True
  with assms(2) show ?thesis
    by (simp add: set_unknown ad_get_debug_field_def)
next
  case False
  with assms show ?thesis
    by (simp add: set_known ad_get_debug_field_def reg_ok_def)
qed

lemma increment_present:
  assumes "reg_ok s" and "k \<noteq> ANT_DEBUG_FIELD_INVALID"
    and "m_hash_lookup s k \<noteq> ANT_DEBUG_FIELD_INVALID"
  shows "ad_increment_debug_field k s =
           s\<lparr> m_debug_queue := (m_debug_queue s)
                (m_hash_lookup s k := (m_debug_queue s (m_hash_lookup s k))
                   \<lparr> value := value (m_debug_queue s (m_hash_lookup s k)) + 1 \<rparr>) \<rparr>"
  using assms by (simp add: ad_increment_debug_field_def get_present set_known)

lemma increment_wraps: "(0xFFFF :: u16) + 1 = 0"
  by simp

subsection \<open>A field that inherits the included flag\<close>

text \<open>
  After \<open>ad_init\<close>, a filter-add command for key 5 and a second \<open>ad_init\<close>, the field
  registered next (key 9) takes slot 0 and is included, though no command named it.
\<close>

lemma reinit_inherits_included:
  "output (m_debug_queue
     (ad_set_debug_field 9 1
        (ad_init (ad_decode_debug_command (payload_of [0xF9, 3, 1, 5, 255, 255, 255, 255])
                    (ad_init power_on)))) 0)"
  by (simp add: eval_defs const_defs)

end
